theory Spec2Isabelle
  imports Complex_Main "HOL-Library.Monad_Syntax"
begin

section \<open>JavaScript numbers\<close>

text \<open>
  The program computes with JavaScript numbers. The model keeps the three kinds of
  value that steer its control flow: finite numbers, the two infinities and NaN.
  Finite arithmetic is exact (no rounding, no overflow), and the two zeros are one
  value; the one computation whose rounding is modelled is the angle of a projection
  (\<open>double_round\<close> below), where the exact value is what is at stake. The program divides by a possibly zero value in one place only, the scale of
  \<open>meshToVoxels\<close>, where the divisor is a maximum of differences \<open>max[i] - min[i]\<close>
  and so never the negative zero: \<open>js_div\<close> reads a zero divisor as \<open>+0\<close>.
\<close>

datatype jsnum = NaN | NInf | Fin real | PInf

fun js_lt :: "jsnum \<Rightarrow> jsnum \<Rightarrow> bool" where
  "js_lt NaN _ = False"
| "js_lt _ NaN = False"
| "js_lt (Fin a) (Fin b) = (a < b)"
| "js_lt NInf NInf = False"
| "js_lt NInf _ = True"
| "js_lt PInf _ = False"
| "js_lt (Fin a) PInf = True"
| "js_lt (Fin a) NInf = False"

fun js_le :: "jsnum \<Rightarrow> jsnum \<Rightarrow> bool" where
  "js_le NaN _ = False"
| "js_le _ NaN = False"
| "js_le (Fin a) (Fin b) = (a \<le> b)"
| "js_le NInf _ = True"
| "js_le PInf PInf = True"
| "js_le PInf _ = False"
| "js_le (Fin a) PInf = True"
| "js_le (Fin a) NInf = False"

definition js_gt :: "jsnum \<Rightarrow> jsnum \<Rightarrow> bool" where
  "js_gt a b = js_lt b a"

definition js_ge :: "jsnum \<Rightarrow> jsnum \<Rightarrow> bool" where
  "js_ge a b = js_le b a"

text \<open>\<open>Math.min\<close> and \<open>Math.max\<close> of two arguments: NaN as soon as one of them is.\<close>

definition js_min :: "jsnum \<Rightarrow> jsnum \<Rightarrow> jsnum" where
  "js_min a b = (if a = NaN \<or> b = NaN then NaN else if js_lt b a then b else a)"

definition js_max :: "jsnum \<Rightarrow> jsnum \<Rightarrow> jsnum" where
  "js_max a b = (if a = NaN \<or> b = NaN then NaN else if js_lt a b then b else a)"

fun js_neg :: "jsnum \<Rightarrow> jsnum" where
  "js_neg NaN = NaN"
| "js_neg NInf = PInf"
| "js_neg PInf = NInf"
| "js_neg (Fin a) = Fin (- a)"

fun js_add :: "jsnum \<Rightarrow> jsnum \<Rightarrow> jsnum" where
  "js_add NaN _ = NaN"
| "js_add _ NaN = NaN"
| "js_add (Fin a) (Fin b) = Fin (a + b)"
| "js_add PInf NInf = NaN"
| "js_add NInf PInf = NaN"
| "js_add PInf _ = PInf"
| "js_add NInf _ = NInf"
| "js_add (Fin a) b = b"

definition js_sub :: "jsnum \<Rightarrow> jsnum \<Rightarrow> jsnum" where
  "js_sub a b = js_add a (js_neg b)"

text \<open>The sign of an infinite product or quotient: the infinity \<open>i\<close> with the sign of \<open>s\<close>.\<close>

definition signed_inf :: "jsnum \<Rightarrow> real \<Rightarrow> jsnum" where
  "signed_inf i s = (if 0 < s then i else js_neg i)"

fun js_mul :: "jsnum \<Rightarrow> jsnum \<Rightarrow> jsnum" where
  "js_mul NaN _ = NaN"
| "js_mul _ NaN = NaN"
| "js_mul (Fin a) (Fin b) = Fin (a * b)"
| "js_mul (Fin a) PInf = (if a = 0 then NaN else signed_inf PInf a)"
| "js_mul (Fin a) NInf = (if a = 0 then NaN else signed_inf NInf a)"
| "js_mul PInf (Fin b) = (if b = 0 then NaN else signed_inf PInf b)"
| "js_mul NInf (Fin b) = (if b = 0 then NaN else signed_inf NInf b)"
| "js_mul PInf PInf = PInf"
| "js_mul NInf NInf = PInf"
| "js_mul PInf NInf = NInf"
| "js_mul NInf PInf = NInf"

fun js_div :: "jsnum \<Rightarrow> jsnum \<Rightarrow> jsnum" where
  "js_div NaN _ = NaN"
| "js_div _ NaN = NaN"
| "js_div (Fin a) (Fin b) =
     (if b \<noteq> 0 then Fin (a / b) else if a = 0 then NaN else signed_inf PInf a)"
| "js_div (Fin a) PInf = Fin 0"
| "js_div (Fin a) NInf = Fin 0"
| "js_div PInf (Fin b) = (if b < 0 then NInf else PInf)"
| "js_div NInf (Fin b) = (if b < 0 then PInf else NInf)"
| "js_div PInf PInf = NaN"
| "js_div PInf NInf = NaN"
| "js_div NInf PInf = NaN"
| "js_div NInf NInf = NaN"

fun js_floor :: "jsnum \<Rightarrow> jsnum" where
  "js_floor (Fin a) = Fin (of_int \<lfloor>a\<rfloor>)"
| "js_floor a = a"

text \<open>\<open>Math.round\<close> rounds to the nearest integer, a half towards \<open>+\<infinity>\<close>.\<close>

fun js_round :: "jsnum \<Rightarrow> jsnum" where
  "js_round (Fin a) = Fin (of_int \<lfloor>a + 1 / 2\<rfloor>)"
| "js_round a = a"

text \<open>\<open>a || b\<close> on numbers: \<open>b\<close> when \<open>a\<close> is falsy, which is zero or NaN.\<close>

definition js_or :: "jsnum \<Rightarrow> jsnum \<Rightarrow> jsnum" where
  "js_or a b = (if a = Fin 0 \<or> a = NaN then b else a)"

subsection \<open>Rounding to double precision\<close>

text \<open>\<open>2\<^sup>e\<close> for an integer exponent.\<close>

definition pow2 :: "int \<Rightarrow> real" where
  "pow2 e = (if 0 \<le> e then 2 ^ nat e else 1 / 2 ^ nat (- e))"

text \<open>Rounding to the nearest integer, a tie to the even one.\<close>

definition round_even :: "real \<Rightarrow> int" where
  "round_even r =
     (if r - of_int \<lfloor>r\<rfloor> < 1 / 2 then \<lfloor>r\<rfloor>
      else if 1 / 2 < r - of_int \<lfloor>r\<rfloor> then \<lfloor>r\<rfloor> + 1
      else if even \<lfloor>r\<rfloor> then \<lfloor>r\<rfloor> else \<lfloor>r\<rfloor> + 1)"

text \<open>
  The double nearest to a real, ties to even: the exponent \<open>e\<close> of \<open>x\<close> is
  \<open>floor(log2 |x|)\<close>, at least \<open>-1022\<close> (below that the doubles are subnormal and
  equally spaced), and the result is the multiple of \<open>2\<^sup>e\<^sup>-\<^sup>5\<^sup>2\<close> nearest to \<open>x\<close>.
  It is used on magnitudes below \<open>2\<^sup>1\<^sup>0\<^sup>2\<^sup>4\<close> only, where a double does not overflow.
\<close>

definition double_round :: "real \<Rightarrow> real" where
  "double_round x =
     (if x = 0 then 0
      else let e = max \<lfloor>log 2 \<bar>x\<bar>\<rfloor> (- 1022);
               ulp = pow2 (e - 52)
           in of_int (round_even (x / ulp)) * ulp)"

section \<open>Projections and the normalizer\<close>

text \<open>\<open>type Projection = { angle: number; data: number[][] }\<close>\<close>

record Projection =
  angle :: real
  data :: "jsnum list list"

text \<open>
  The first pass of \<open>normalizeProjections\<close>: the body of the innermost \<open>forEach\<close>
  on the pair \<open>(globalMin, globalMax)\<close>, and the three nested \<open>forEach\<close> loops.
\<close>

definition scan_val :: "jsnum \<Rightarrow> jsnum \<times> jsnum \<Rightarrow> jsnum \<times> jsnum" where
  "scan_val val mm =
     (let globalMin = (if js_lt val (fst mm) then val else fst mm);
          globalMax = (if js_gt val (snd mm) then val else snd mm)
      in (globalMin, globalMax))"

definition scan_projections :: "Projection list \<Rightarrow> jsnum \<times> jsnum" where
  "scan_projections projections =
     fold (\<lambda>proj. fold (\<lambda>row. fold scan_val row) (data proj)) projections (PInf, NInf)"

definition rescale :: "jsnum \<Rightarrow> jsnum \<Rightarrow> jsnum \<Rightarrow> jsnum" where
  "rescale globalMin rng val =
     js_round (js_mul (js_div (js_sub val globalMin) rng) (Fin 255))"

definition normalizeProjections :: "Projection list \<Rightarrow> Projection list" where
  "normalizeProjections projections =
     (let mm = scan_projections projections;
          globalMin = fst mm;
          globalMax = snd mm;
          rng = js_or (js_sub globalMax globalMin) (Fin 1)
      in map (\<lambda>proj. proj\<lparr>data := map (\<lambda>row. map (rescale globalMin rng) row) (data proj)\<rparr>)
           projections)"

text \<open>All pixel values of a projection set, in scan order.\<close>

definition pixels :: "Projection list \<Rightarrow> jsnum list" where
  "pixels projections = concat (concat (map data projections))"

text \<open>
  The normalizer as the specification words it, for comparison: the global minimum and
  maximum of all pixels, \<open>range = max(max - min, 1)\<close>, and every pixel replaced by
  \<open>round((value - min) / range * 255)\<close>.
\<close>

definition spec_normalizer :: "Projection list \<Rightarrow> Projection list" where
  "spec_normalizer projections =
     (let mn = fold js_min (pixels projections) PInf;
          mx = fold js_max (pixels projections) NInf;
          rng = js_max (js_sub mx mn) (Fin 1)
      in map (\<lambda>proj. proj\<lparr>data := map (map (\<lambda>val.
                js_round (js_mul (js_div (js_sub val mn) rng) (Fin 255)))) (data proj)\<rparr>)
           projections)"

section \<open>Voxel volumes\<close>

text \<open>
  \<open>type VoxelVolume = number[][][]\<close>, indexed \<open>volume[z][y][x]\<close>. Grid sizes and
  projection counts are array lengths and loop bounds, hence naturals. A read or a write
  at an index outside the nested arrays is \<open>None\<close>: in JavaScript the read yields
  \<open>undefined\<close> (a TypeError one level up, NaN in arithmetic) and the write a TypeError
  or a grown row. A result \<open>Some\<close> therefore certifies that every access was inside.
\<close>

type_synonym VoxelVolume = "real list list list"

definition in_volume :: "VoxelVolume \<Rightarrow> int \<Rightarrow> int \<Rightarrow> int \<Rightarrow> bool" where
  "in_volume volume z y x =
     (0 \<le> z \<and> z < int (length volume)
      \<and> 0 \<le> y \<and> y < int (length (volume ! nat z))
      \<and> 0 \<le> x \<and> x < int (length (volume ! nat z ! nat y)))"

definition read3 :: "VoxelVolume \<Rightarrow> int \<Rightarrow> int \<Rightarrow> int \<Rightarrow> real option" where
  "read3 volume z y x =
     (if in_volume volume z y x then Some (volume ! nat z ! nat y ! nat x) else None)"

definition write3 :: "VoxelVolume \<Rightarrow> int \<Rightarrow> int \<Rightarrow> int \<Rightarrow> real \<Rightarrow> VoxelVolume option" where
  "write3 volume z y x c =
     (if in_volume volume z y x
      then Some (volume[nat z := (volume ! nat z)[nat y := (volume ! nat z ! nat y)[nat x := c]]])
      else None)"

text \<open>\<open>Array(n).fill(0).map(() => Array(n).fill(0).map(() => Array(n).fill(0)))\<close>\<close>

definition zero_volume :: "nat \<Rightarrow> VoxelVolume" where
  "zero_volume n = replicate n (replicate n (replicate n 0))"

text \<open>A loop over a list whose body may fail: the first failure ends it.\<close>

fun forEach :: "('a \<Rightarrow> 's \<Rightarrow> 's option) \<Rightarrow> 'a list \<Rightarrow> 's \<Rightarrow> 's option" where
  "forEach body [] s = Some s"
| "forEach body (x # xs) s = (case body x s of None \<Rightarrow> None | Some s' \<Rightarrow> forEach body xs s')"

section \<open>STLParser.meshToVoxels\<close>

text \<open>\<open>type Mesh = { vertices: number[][]; triangles: number[][] }\<close>\<close>

record Mesh =
  vertices :: "jsnum list list"
  triangles :: "nat list list"

text \<open>\<open>v[i]\<close> in arithmetic and in \<open>Math.min\<close>: a missing entry is \<open>undefined\<close>, which
  converts to NaN.\<close>

definition coord :: "jsnum list \<Rightarrow> nat \<Rightarrow> jsnum" where
  "coord v i = (if i < length v then v ! i else NaN)"

definition bbox_step :: "jsnum list \<Rightarrow> jsnum list \<times> jsnum list \<Rightarrow> jsnum list \<times> jsnum list" where
  "bbox_step v mm =
     (map (\<lambda>i. js_min (fst mm ! i) (coord v i)) [0..<3],
      map (\<lambda>i. js_max (snd mm ! i) (coord v i)) [0..<3])"

definition bounding_box :: "jsnum list list \<Rightarrow> jsnum list \<times> jsnum list" where
  "bounding_box vs = fold bbox_step vs ([PInf, PInf, PInf], [NInf, NInf, NInf])"

text \<open>\<open>Math.max(...size)\<close>\<close>

definition js_max_list :: "jsnum list \<Rightarrow> jsnum" where
  "js_max_list xs = fold (\<lambda>x acc. js_max acc x) xs NInf"

text \<open>\<open>Math.floor((vertex[i] - min[i]) * scale + (gridSize - size[i] * scale) / 2)\<close>\<close>

definition voxel_coord :: "nat \<Rightarrow> jsnum list \<Rightarrow> jsnum list \<Rightarrow> jsnum \<Rightarrow> jsnum list \<Rightarrow> nat \<Rightarrow> jsnum" where
  "voxel_coord gridSize mn sz scale vertex i =
     js_floor (js_add (js_mul (js_sub (coord vertex i) (mn ! i)) scale)
                      (js_div (js_sub (Fin (real gridSize)) (js_mul (sz ! i) scale)) (Fin 2)))"

definition inside_grid :: "nat \<Rightarrow> jsnum \<Rightarrow> bool" where
  "inside_grid gridSize x = (js_ge x (Fin 0) \<and> js_lt x (Fin (real gridSize)))"

text \<open>An array index given by a number: only an integral finite number names an element.\<close>

fun js_index :: "jsnum \<Rightarrow> int option" where
  "js_index (Fin a) = (if a = of_int \<lfloor>a\<rfloor> then Some \<lfloor>a\<rfloor> else None)"
| "js_index _ = None"

definition voxel_step :: "nat \<Rightarrow> jsnum list \<Rightarrow> jsnum list \<Rightarrow> jsnum \<Rightarrow> jsnum list \<Rightarrow> VoxelVolume \<Rightarrow> VoxelVolume option" where
  "voxel_step gridSize mn sz scale vertex voxels =
     (let x = voxel_coord gridSize mn sz scale vertex 0;
          y = voxel_coord gridSize mn sz scale vertex 1;
          z = voxel_coord gridSize mn sz scale vertex 2
      in if inside_grid gridSize x \<and> inside_grid gridSize y \<and> inside_grid gridSize z
         then do { zi \<leftarrow> js_index z; yi \<leftarrow> js_index y; xi \<leftarrow> js_index x;
                   write3 voxels zi yi xi 1 }
         else Some voxels)"

definition meshToVoxels :: "Mesh \<Rightarrow> nat \<Rightarrow> VoxelVolume option" where
  "meshToVoxels mesh gridSize =
     (let mm = bounding_box (vertices mesh);
          mn = fst mm;
          mx = snd mm;
          sz = map (\<lambda>i. js_sub (mx ! i) (mn ! i)) [0..<3];
          scale = js_div (Fin (real gridSize * 0.8)) (js_max_list sz);
          voxels = zero_volume gridSize
      in forEach (voxel_step gridSize mn sz scale) (vertices mesh) voxels)"

section \<open>CALProjector\<close>

subsection \<open>The Radon kernel\<close>

text \<open>Trilinear interpolation at a sample position, as the guarded block of the kernel.\<close>

definition interpolate :: "VoxelVolume \<Rightarrow> real \<Rightarrow> real \<Rightarrow> real \<Rightarrow> real option" where
  "interpolate volume x y z =
     (let x0 = \<lfloor>x\<rfloor>; y0 = \<lfloor>y\<rfloor>; z0 = \<lfloor>z\<rfloor>;
          dx = x - of_int x0; dy = y - of_int y0; dz = z - of_int z0
      in do {
        c000 \<leftarrow> read3 volume z0 y0 x0;
        c100 \<leftarrow> read3 volume z0 y0 (x0 + 1);
        c010 \<leftarrow> read3 volume z0 (y0 + 1) x0;
        c110 \<leftarrow> read3 volume z0 (y0 + 1) (x0 + 1);
        c001 \<leftarrow> read3 volume (z0 + 1) y0 x0;
        c101 \<leftarrow> read3 volume (z0 + 1) y0 (x0 + 1);
        c011 \<leftarrow> read3 volume (z0 + 1) (y0 + 1) x0;
        c111 \<leftarrow> read3 volume (z0 + 1) (y0 + 1) (x0 + 1);
        let c00 = c000 * (1 - dx) + c100 * dx;
            c01 = c001 * (1 - dx) + c101 * dx;
            c10 = c010 * (1 - dx) + c110 * dx;
            c11 = c011 * (1 - dx) + c111 * dx;
            c0 = c00 * (1 - dy) + c10 * dy;
            c1 = c01 * (1 - dy) + c11 * dy
        in Some (c0 * (1 - dz) + c1 * dz)
      })"

text \<open>The sample position of march parameter \<open>t\<close>.\<close>

definition sample_pos :: "real \<Rightarrow> real \<Rightarrow> real \<Rightarrow> real \<Rightarrow> real \<Rightarrow> real \<Rightarrow> real \<times> real \<times> real" where
  "sample_pos cosTheta sinTheta uCentered vCentered center t =
     (uCentered * cosTheta - t * sinTheta + center,
      vCentered + center,
      uCentered * sinTheta + t * cosTheta + center)"

definition in_bounds :: "real \<Rightarrow> real \<times> real \<times> real \<Rightarrow> bool" where
  "in_bounds sz p =
     (case p of (x, y, z) \<Rightarrow>
        x \<ge> 0 \<and> x < sz - 1 \<and> y \<ge> 0 \<and> y < sz - 1 \<and> z \<ge> 0 \<and> z < sz - 1)"

text \<open>One iteration of the march: the new value of \<open>lineIntegral\<close>.\<close>

definition march_step ::
  "VoxelVolume \<Rightarrow> real \<Rightarrow> real \<Rightarrow> real \<Rightarrow> real \<Rightarrow> real \<Rightarrow> real \<Rightarrow> real \<Rightarrow> real \<Rightarrow> real option" where
  "march_step volume sz cosTheta sinTheta uCentered vCentered center t lineIntegral =
     (let p = sample_pos cosTheta sinTheta uCentered vCentered center t
      in if in_bounds sz p
         then (case p of (x, y, z) \<Rightarrow>
                 do { c \<leftarrow> interpolate volume x y z; Some (lineIntegral + c * 0.5) })
         else Some lineIntegral)"

text \<open>\<open>for (let t = t0; t < bound; t += 0.5) body\<close>\<close>

function for_t :: "(real \<Rightarrow> 'a \<Rightarrow> 'a option) \<Rightarrow> real \<Rightarrow> real \<Rightarrow> 'a \<Rightarrow> 'a option" where
  "for_t body bound t acc =
     (if t < bound
      then (case body t acc of None \<Rightarrow> None | Some acc' \<Rightarrow> for_t body bound (t + 0.5) acc')
      else Some acc)"
  by pat_completeness auto
termination
proof (relation "measure (\<lambda>(body, bound, t, acc). nat \<lceil>(bound - t) * 2\<rceil>)")
  show "wf (measure (\<lambda>(body :: real \<Rightarrow> 'a \<Rightarrow> 'a option, bound, t, acc :: 'a). nat \<lceil>(bound - t) * 2\<rceil>))"
    by simp
next
  fix body :: "real \<Rightarrow> 'a \<Rightarrow> 'a option" and bound t :: real and acc x2 :: 'a
  assume lt: "t < bound"
  have "\<lceil>(bound - (t + 0.5)) * 2\<rceil> = \<lceil>(bound - t) * 2 - 1\<rceil>"
    by (simp add: algebra_simps)
  also have "\<dots> = \<lceil>(bound - t) * 2\<rceil> - 1"
    by (metis ceiling_diff_one)
  finally have step: "\<lceil>(bound - (t + 0.5)) * 2\<rceil> = \<lceil>(bound - t) * 2\<rceil> - 1" .
  have "0 < \<lceil>(bound - t) * 2\<rceil>"
    using lt by (simp add: ceiling_less_iff)
  then show "((body, bound, t + 0.5, x2), (body, bound, t, acc))
      \<in> measure (\<lambda>(body, bound, t, acc). nat \<lceil>(bound - t) * 2\<rceil>)"
    using step by simp
qed

declare for_t.simps [simp del]

text \<open>
  The kernel function for output pixel \<open>(u, v) = (thread.x, thread.y)\<close>.
\<close>

definition radonKernel :: "VoxelVolume \<Rightarrow> real \<Rightarrow> nat \<Rightarrow> nat \<Rightarrow> nat \<Rightarrow> real option" where
  "radonKernel volume theta sz u v =
     (let angleRad = theta * (pi / 180);
          cosTheta = cos angleRad;
          sinTheta = sin angleRad;
          center = real sz / 2;
          uCentered = real u - center;
          vCentered = real v - center
      in for_t (march_step volume (real sz) cosTheta sinTheta uCentered vCentered center)
           (real sz * 0.7) (- real sz * 0.7) 0)"

text \<open>
  The kernel object built by \<open>createKernel\<close> with \<open>output: [volumeSize, volumeSize]\<close>:
  called on \<open>(volume, theta, size)\<close> it returns the rows \<open>result[y][x]\<close> of the kernel
  function's values at \<open>thread.x = x\<close>, \<open>thread.y = y\<close>. The flattened input of side
  \<open>volumeSize\<close> is read as \<open>volume[z][y][x]\<close>, like the nested array it is made from.
\<close>

definition runKernel :: "nat \<Rightarrow> VoxelVolume \<Rightarrow> real \<Rightarrow> nat \<Rightarrow> real list list option" where
  "runKernel volumeSize volume theta sz =
     those (map (\<lambda>v. those (map (\<lambda>u. radonKernel volume theta sz u v) [0..<volumeSize]))
              [0..<volumeSize])"

subsection \<open>generateProjections\<close>

text \<open>
  One iteration of the loop over \<open>i\<close>. The angle \<open>(i / numProjections) * 360\<close> is a
  quotient and a product of doubles, each rounded (\<open>i\<close> and \<open>numProjections\<close> are
  integers below \<open>2\<^sup>5\<^sup>3\<close>, hence exact). The progress callback and the pause every tenth
  angle do not touch \<open>projections\<close> and are left out.
\<close>

definition generate_step :: "VoxelVolume \<Rightarrow> nat \<Rightarrow> nat \<Rightarrow> nat \<Rightarrow> Projection list \<Rightarrow> Projection list option" where
  "generate_step volume volumeSize numProjections i projections =
     (let angle = double_round (double_round (real i / real numProjections) * 360)
      in case runKernel volumeSize volume angle volumeSize of
           None \<Rightarrow> None
         | Some projectionData \<Rightarrow>
             Some (projections @ [\<lparr>angle = angle, data = map (map Fin) projectionData\<rparr>]))"

definition generateProjections :: "nat \<Rightarrow> nat \<Rightarrow> VoxelVolume \<Rightarrow> Projection list option" where
  "generateProjections volumeSize numProjections volume =
     (case forEach (generate_step volume volumeSize numProjections) [0..<numProjections] [] of
        None \<Rightarrow> None
      | Some projections \<Rightarrow> Some (normalizeProjections projections))"

subsection \<open>createTestModel, the cube\<close>

text \<open>
  The \<open>"cube"\<close> case of \<open>createTestModel\<close>: the three nested loops from
  \<open>Math.floor(start)\<close> up to, not including, \<open>Math.floor(end)\<close>.
\<close>

definition createTestModel_cube :: "nat \<Rightarrow> VoxelVolume option" where
  "createTestModel_cube sz =
     (let model = zero_volume sz;
          cubeSize = real sz * 0.4;
          start = (real sz - cubeSize) / 2;
          stop = start + cubeSize;
          span = [\<lfloor>start\<rfloor>..\<lfloor>stop\<rfloor> - 1]
      in forEach (\<lambda>z. forEach (\<lambda>y. forEach (\<lambda>x model. write3 model z y x 1) span) span)
           span model)"

text \<open>
  The cube fixture as the specification words it: a cell is occupied iff each of its
  coordinates lies in \<open>[round((N - 0.4N)/2), round((N - 0.4N)/2) + 0.4N)\<close>.
\<close>

definition spec_cube_interval :: "nat \<Rightarrow> int \<Rightarrow> bool" where
  "spec_cube_interval N x =
     (real_of_int (round ((real N - 0.4 * real N) / 2)) \<le> real_of_int x
      \<and> real_of_int x < real_of_int (round ((real N - 0.4 * real N) / 2)) + 0.4 * real N)"

definition spec_cube_occupied :: "nat \<Rightarrow> int \<Rightarrow> int \<Rightarrow> int \<Rightarrow> bool" where
  "spec_cube_occupied N x y z =
     (spec_cube_interval N x \<and> spec_cube_interval N y \<and> spec_cube_interval N z)"

section \<open>Shapes of volumes\<close>

text \<open>A volume of side \<open>n\<close>: \<open>n\<close> planes of \<open>n\<close> rows of \<open>n\<close> cells.\<close>

definition cubic :: "nat \<Rightarrow> VoxelVolume \<Rightarrow> bool" where
  "cubic n volume =
     (length volume = n
      \<and> (\<forall>plane\<in>set volume. length plane = n \<and> (\<forall>row\<in>set plane. length row = n)))"

text \<open>Every cell is \<open>0\<close> or \<open>1\<close>.\<close>

definition binary_cells :: "VoxelVolume \<Rightarrow> bool" where
  "binary_cells volume = (\<forall>plane\<in>set volume. \<forall>row\<in>set plane. \<forall>c\<in>set row. c = 0 \<or> c = 1)"

text \<open>The bounding-box extent \<open>size\<close> that \<open>meshToVoxels\<close> computes for a mesh.\<close>

definition mesh_extent :: "Mesh \<Rightarrow> jsnum list" where
  "mesh_extent mesh =
     (let mm = bounding_box (vertices mesh)
      in map (\<lambda>i. js_sub (snd mm ! i) (fst mm ! i)) [0..<3])"

text \<open>Every cell lies in \<open>[0, 1]\<close>.\<close>

definition unit_cells :: "VoxelVolume \<Rightarrow> bool" where
  "unit_cells volume = (\<forall>plane\<in>set volume. \<forall>row\<in>set plane. \<forall>c\<in>set row. 0 \<le> c \<and> c \<le> 1)"

text \<open>
  The number of iterations of \<open>for (let t = t0; t < bound; t += 0.5)\<close>, in closed form.
\<close>

definition march_steps :: "real \<Rightarrow> real \<Rightarrow> nat" where
  "march_steps bound t = (if t < bound then nat \<lceil>(bound - t) * 2\<rceil> else 0)"

section \<open>The pipeline in closed form\<close>

text \<open>
  The raw projection at an angle, the projection set before normalization and the list
  of its raw values, written with the kernel's values; the lemmas below show that
  \<open>generateProjections\<close> computes them on a volume of side \<open>n\<close>.
\<close>


text \<open>The angle that \<open>generateProjections\<close> attaches to projection \<open>i\<close>.\<close>

definition projection_angle :: "nat \<Rightarrow> nat \<Rightarrow> real" where
  "projection_angle numProjections i =
     double_round (double_round (real i / real numProjections) * 360)"

definition raw_projection :: "nat \<Rightarrow> VoxelVolume \<Rightarrow> real \<Rightarrow> real list list" where
  "raw_projection n volume theta =
     map (\<lambda>v. map (\<lambda>u. the (radonKernel volume theta n u v)) [0..<n]) [0..<n]"

definition raw_projections :: "nat \<Rightarrow> nat \<Rightarrow> VoxelVolume \<Rightarrow> nat list \<Rightarrow> Projection list" where
  "raw_projections n m volume is =
     map (\<lambda>i. \<lparr>angle = projection_angle m i,
               data = map (map Fin) (raw_projection n volume (projection_angle m i))\<rparr>) is"



definition raw_values :: "nat \<Rightarrow> nat \<Rightarrow> VoxelVolume \<Rightarrow> nat list \<Rightarrow> real list" where
  "raw_values n m volume is =
     concat (concat (map (\<lambda>i. raw_projection n volume (projection_angle m i)) is))"


text \<open>The cube fixture at \<open>N = 64\<close>, as \<open>createTestModel\<close> builds it.\<close>

definition is_cube64 :: "VoxelVolume \<Rightarrow> bool" where
  "is_cube64 model =
     (cubic 64 model
      \<and> (\<forall>z y x. read3 model z y x =
          (if 19 \<le> z \<and> z < 44 \<and> 19 \<le> y \<and> y < 44 \<and> 19 \<le> x \<and> x < 44 then Some 1
           else if 0 \<le> z \<and> z < 64 \<and> 0 \<le> y \<and> y < 64 \<and> 0 \<le> x \<and> x < 64 then Some 0
           else None)))"


section \<open>The normalizer: frame\<close>

text \<open>
  C8. The normalizer replaces the pixel grid of every projection and changes nothing
  else: the angles, the number of projections and their order are those of the input,
  and every grid keeps its shape (each value is rescaled once, where it stands).
\<close>

theorem normalize_frame:
  "map angle (normalizeProjections ps) = map angle ps
   \<and> length (normalizeProjections ps) = length ps
   \<and> map (map length \<circ> data) (normalizeProjections ps) = map (map length \<circ> data) ps"
  by (simp add: normalizeProjections_def Let_def comp_def)

section \<open>The normalizer: values\<close>

lemma fold_concat_fold: "fold f (concat xss) s = fold (fold f) xss s"
  by (induction xss arbitrary: s) simp_all

lemma scan_projections_pixels:
  "scan_projections ps = fold scan_val (pixels ps) (PInf, NInf)"
  by (simp add: scan_projections_def pixels_def fold_concat_fold fold_map comp_def)

lemma scan_val_Fin:
  "scan_val (Fin r) (Fin a, Fin b) = (Fin (min r a), Fin (max b r))"
  by (auto simp: scan_val_def js_gt_def Let_def min_def max_def)

lemma fold_scan_Fin:
  "fold scan_val (map Fin rs) (Fin a, Fin b) = (Fin (fold min rs a), Fin (fold max rs b))"
  by (induction rs arbitrary: a b) (simp_all add: scan_val_Fin max.commute)

lemma scan_pixels_Min_Max:
  assumes "rs \<noteq> []"
  shows "fold scan_val (map Fin rs) (PInf, NInf) = (Fin (Min (set rs)), Fin (Max (set rs)))"
proof -
  obtain r rs' where rs: "rs = r # rs'" using assms by (cases rs) auto
  have "fold scan_val (map Fin rs) (PInf, NInf) = fold scan_val (map Fin rs') (Fin r, Fin r)"
    by (simp add: rs scan_val_def js_gt_def)
  also have "\<dots> = (Fin (fold min rs' r), Fin (fold max rs' r))"
    by (rule fold_scan_Fin)
  also have "\<dots> = (Fin (Min (set rs)), Fin (Max (set rs)))"
    unfolding rs Min.set_eq_fold Max.set_eq_fold ..
  finally show ?thesis .
qed

lemma rescale_Fin:
  "rng \<noteq> 0 \<Longrightarrow> rescale (Fin mn) (Fin rng) (Fin v) = Fin (of_int (round ((v - mn) / rng * 255)))"
  by (simp add: rescale_def js_sub_def round_def)

lemma normalize_Fin:
  assumes "pixels ps = map Fin rs" "rs \<noteq> []"
  shows "normalizeProjections ps =
     map (\<lambda>proj. proj\<lparr>data := map (map (rescale (Fin (Min (set rs)))
        (Fin (if Max (set rs) - Min (set rs) = 0 then 1 else Max (set rs) - Min (set rs)))))
        (data proj)\<rparr>) ps"
proof -
  have scan: "scan_projections ps = (Fin (Min (set rs)), Fin (Max (set rs)))"
    using assms by (simp add: scan_projections_pixels scan_pixels_Min_Max)
  have rng: "js_or (js_sub (Fin (Max (set rs))) (Fin (Min (set rs)))) (Fin 1) =
      Fin (if Max (set rs) - Min (set rs) = 0 then 1 else Max (set rs) - Min (set rs))"
    by (simp add: js_or_def js_sub_def)
  show ?thesis
    unfolding normalizeProjections_def Let_def scan fst_conv snd_conv rng ..
qed

lemma pixels_normalize:
  "pixels (map (\<lambda>proj. proj\<lparr>data := map (map f) (data proj)\<rparr>) ps) = map f (pixels ps)"
  by (simp add: pixels_def map_concat comp_def)

lemma round_unit_range:
  fixes v mn mx :: real
  assumes "mn \<le> v" "v \<le> mx" "mn < mx"
  shows "0 \<le> round ((v - mn) / (mx - mn) * 255)" "round ((v - mn) / (mx - mn) * 255) \<le> 255"
proof -
  have q0: "0 \<le> (v - mn) / (mx - mn)" using assms by simp
  have q1: "(v - mn) / (mx - mn) \<le> 1" using assms by simp
  have "0 \<le> (v - mn) / (mx - mn) * 255" by (rule mult_nonneg_nonneg[OF q0]) simp
  then have "round (0::real) \<le> round ((v - mn) / (mx - mn) * 255)" by (rule round_mono)
  then show "0 \<le> round ((v - mn) / (mx - mn) * 255)" by simp
  have "(v - mn) / (mx - mn) * 255 \<le> 1 * 255" by (rule mult_right_mono[OF q1]) simp
  then have "(v - mn) / (mx - mn) * 255 \<le> 255" by simp
  then have "round ((v - mn) / (mx - mn) * 255) \<le> round (255::real)" by (rule round_mono)
  then show "round ((v - mn) / (mx - mn) * 255) \<le> 255" by simp
qed

lemma normalize_pixels_Fin:
  assumes "pixels ps = map Fin rs" "rs \<noteq> []"
  shows "pixels (normalizeProjections ps) =
     map (\<lambda>v. Fin (of_int (round ((v - Min (set rs)) /
        (if Max (set rs) - Min (set rs) = 0 then 1 else Max (set rs) - Min (set rs)) * 255)))) rs"
  by (simp add: normalize_Fin[OF assms] pixels_normalize assms(1) rescale_Fin comp_def)

text \<open>
  C2 (as stated). The normalizer of the code is not the one the specification words:
  on the pixels \<open>0\<close> and \<open>0.5\<close> the code divides by \<open>0.5\<close> and returns \<open>255\<close> for the
  second, where \<open>range = max(max - min, 1) = 1\<close> gives \<open>round(127.5) = 128\<close>.
\<close>

theorem normalize_range_counterexample:
  "normalizeProjections [\<lparr>angle = 0, data = [[Fin 0, Fin (1 / 2)]]\<rparr>]
     = [\<lparr>angle = 0, data = [[Fin 0, Fin 255]]\<rparr>]
   \<and> spec_normalizer [\<lparr>angle = 0, data = [[Fin 0, Fin (1 / 2)]]\<rparr>]
     = [\<lparr>angle = 0, data = [[Fin 0, Fin 128]]\<rparr>]"
  by (simp add: normalizeProjections_def spec_normalizer_def scan_projections_def scan_val_def
     pixels_def js_gt_def js_min_def js_max_def js_or_def js_sub_def rescale_def Let_def)

text \<open>
  C2 (amended). On a projection set with at least one pixel, all pixels finite, the
  normalizer computes the global minimum \<open>mn\<close> and maximum \<open>mx\<close> over every pixel of
  every projection, takes \<open>range = mx - mn\<close>, or \<open>1\<close> when that difference is zero, and
  replaces every pixel value \<open>v\<close> by \<open>round((v - mn) / range * 255)\<close>.
\<close>

theorem normalize_rescales:
  assumes "pixels ps = map Fin rs" and "rs \<noteq> []"
  shows "let mn = Min (set rs); mx = Max (set rs);
             rng = (if mx - mn = 0 then 1 else mx - mn)
         in normalizeProjections ps =
              map (\<lambda>proj. proj\<lparr>data := map (map (rescale (Fin mn) (Fin rng))) (data proj)\<rparr>) ps
            \<and> pixels (normalizeProjections ps) =
              map (\<lambda>v. Fin (of_int (round ((v - mn) / rng * 255)))) rs"
  unfolding Let_def
  using normalize_Fin[OF assms] normalize_pixels_Fin[OF assms] by simp

theorem normalize_rescales_witness:
  "normalizeProjections [\<lparr>angle = 0, data = [[Fin 0, Fin (1 / 2)], [Fin (1 / 4)]]\<rparr>]
     = [\<lparr>angle = 0, data = [[Fin 0, Fin 255], [Fin 128]]\<rparr>]"
proof -
  have p: "pixels [\<lparr>angle = 0, data = [[Fin 0, Fin (1 / 2)], [Fin (1 / 4)]]\<rparr>]
      = map Fin [0, 1 / 2, 1 / 4]"
    by (simp add: pixels_def)
  have ne: "[0, 1 / 2, 1 / 4 :: real] \<noteq> []" by simp
  show ?thesis
    using normalize_rescales[OF p ne]
    by (simp add: Let_def rescale_def js_sub_def)
qed

text \<open>
  C3. After the normalizer has run on a projection set of finite pixels that are not all
  equal, every pixel is an integer, the least pixel of the whole set is \<open>0\<close> and the
  greatest is \<open>255\<close>; when all pixels are equal, every pixel becomes \<open>0\<close>.
\<close>

theorem normalize_extremes:
  assumes "pixels ps = map Fin rs"
  shows "((\<exists>a\<in>set rs. \<exists>b\<in>set rs. a \<noteq> b) \<longrightarrow>
           (\<exists>out. pixels (normalizeProjections ps) = map (Fin \<circ> of_int) out
              \<and> Min (set out) = 0 \<and> Max (set out) = 255))
       \<and> ((\<forall>a\<in>set rs. \<forall>b\<in>set rs. a = b) \<longrightarrow>
           (\<forall>q\<in>set (pixels (normalizeProjections ps)). q = Fin 0))"
proof (intro conjI impI)
  assume "\<exists>a\<in>set rs. \<exists>b\<in>set rs. a \<noteq> b"
  then obtain a b where ab: "a \<in> set rs" "b \<in> set rs" "a \<noteq> b" by blast
  then have ne: "rs \<noteq> []" by auto
  define mn where "mn = Min (set rs)"
  define mx where "mx = Max (set rs)"
  have bounds: "\<And>v. v \<in> set rs \<Longrightarrow> mn \<le> v \<and> v \<le> mx"
    by (simp add: mn_def mx_def)
  have mn_in: "mn \<in> set rs" unfolding mn_def using ne by (intro Min_in) auto
  have mx_in: "mx \<in> set rs" unfolding mx_def using ne by (intro Max_in) auto
  have lt: "mn < mx"
  proof (rule ccontr)
    assume "\<not> mn < mx"
    then have "mx \<le> mn" by simp
    with bounds[OF ab(1)] bounds[OF ab(2)] have "a = b" by linarith
    with ab(3) show False by contradiction
  qed
  define out where "out = map (\<lambda>v. round ((v - mn) / (mx - mn) * 255)) rs"
  have px: "pixels (normalizeProjections ps) = map (Fin \<circ> of_int) out"
    using lt by (simp add: normalize_pixels_Fin[OF assms ne] out_def mn_def mx_def comp_def)
  have in0: "0 \<in> set out"
    unfolding out_def set_map using mn_in by (intro rev_image_eqI[of mn]) simp_all
  have "round ((mx - mn) / (mx - mn) * 255) = 255" using lt by simp
  then have in255: "255 \<in> set out"
    unfolding out_def set_map using mx_in by (intro rev_image_eqI[of mx]) simp_all
  have rng: "\<And>q. q \<in> set out \<Longrightarrow> 0 \<le> q \<and> q \<le> 255"
    unfolding out_def using round_unit_range[OF _ _ lt] bounds by auto
  have "Min (set out) = 0" using in0 rng by (intro Min_eqI) auto
  moreover have "Max (set out) = 255" using in255 rng by (intro Max_eqI) auto
  ultimately show "\<exists>out. pixels (normalizeProjections ps) = map (Fin \<circ> of_int) out
      \<and> Min (set out) = 0 \<and> Max (set out) = 255"
    using px by blast
next
  assume eq: "\<forall>a\<in>set rs. \<forall>b\<in>set rs. a = b"
  show "\<forall>q\<in>set (pixels (normalizeProjections ps)). q = Fin 0"
  proof (cases "rs = []")
    case True
    then have "pixels ps = []" using assms by simp
    then have "pixels (normalizeProjections ps) = []"
      by (simp add: normalizeProjections_def Let_def pixels_normalize)
    then show ?thesis by simp
  next
    case False
    then have mn_in: "Min (set rs) \<in> set rs" and mx_in: "Max (set rs) \<in> set rs"
      by (auto intro: Min_in Max_in)
    have same: "\<And>v. v \<in> set rs \<Longrightarrow> v = Min (set rs)" using eq mn_in by blast
    have mm: "Max (set rs) = Min (set rs)" using same[OF mx_in] .
    show ?thesis
      using same by (auto simp: normalize_pixels_Fin[OF assms False] mm)
  qed
qed

theorem normalize_extremes_witness:
  "(\<exists>out. pixels (normalizeProjections [\<lparr>angle = 0, data = [[Fin 2, Fin 3], [Fin 6]]\<rparr>])
        = map (Fin \<circ> of_int) out \<and> Min (set out) = 0 \<and> Max (set out) = 255)
   \<and> pixels (normalizeProjections [\<lparr>angle = 0, data = [[Fin 7, Fin 7]]\<rparr>]) = [Fin 0, Fin 0]"
proof -
  have p1: "pixels [\<lparr>angle = 0, data = [[Fin 2, Fin 3], [Fin 6]]\<rparr>] = map Fin [2, 3, 6]"
    by (simp add: pixels_def)
  have p2: "pixels [\<lparr>angle = 0, data = [[Fin 7, Fin 7]]\<rparr>] = map Fin [7, 7]"
    by (simp add: pixels_def)
  have "pixels (normalizeProjections [\<lparr>angle = 0, data = [[Fin 7, Fin 7]]\<rparr>]) = [Fin 0, Fin 0]"
    using normalize_extremes[OF p2]
    by (simp add: pixels_def normalizeProjections_def Let_def)
  moreover have "\<exists>a\<in>set [2, 3, 6 :: real]. \<exists>b\<in>set [2, 3, 6]. a \<noteq> b"
    by (intro bexI[of _ 2] bexI[of _ 3]) simp_all
  ultimately show ?thesis using normalize_extremes[OF p1] by blast
qed

section \<open>Volumes: reads and writes\<close>


lemma cubic_zero_volume: "cubic n (zero_volume n)"
  by (simp add: cubic_def zero_volume_def)

lemma cubic_nth:
  assumes "cubic n vol" "z < n" "y < n"
  shows "length (vol ! z) = n" "length (vol ! z ! y) = n"
proof -
  have lv: "length vol = n"
    and planes: "\<And>plane. plane \<in> set vol \<Longrightarrow> length plane = n \<and> (\<forall>row\<in>set plane. length row = n)"
    using assms(1) by (auto simp: cubic_def)
  have pz: "vol ! z \<in> set vol" using lv assms(2) by simp
  show 1: "length (vol ! z) = n" using planes[OF pz] by simp
  have "vol ! z ! y \<in> set (vol ! z)" using 1 assms(3) by simp
  then show "length (vol ! z ! y) = n" using planes[OF pz] by simp
qed

lemma cubic_rows:
  assumes "cubic n vol" "z < n"
  shows "\<forall>row\<in>set (vol ! z). length row = n"
proof -
  have "vol ! z \<in> set vol" using assms by (simp add: cubic_def)
  then show ?thesis using assms(1) by (simp add: cubic_def)
qed

lemma in_volume_cubic:
  assumes "cubic n vol"
  shows "in_volume vol z y x =
     (0 \<le> z \<and> z < int n \<and> 0 \<le> y \<and> y < int n \<and> 0 \<le> x \<and> x < int n)"
proof (cases "0 \<le> z \<and> z < int n \<and> 0 \<le> y \<and> y < int n")
  case True
  then have "nat z < n" "nat y < n" by auto
  from cubic_nth[OF assms this] show ?thesis
    using True assms by (simp add: in_volume_def cubic_def)
next
  case False
  then show ?thesis
  proof (cases "0 \<le> z \<and> z < int n")
    case True
    then have "nat z < n" by auto
    then have "vol ! nat z \<in> set vol" using assms by (simp add: cubic_def)
    then have "length (vol ! nat z) = n" using assms by (simp add: cubic_def)
    then show ?thesis using False True assms by (auto simp: in_volume_def cubic_def)
  next
    case False
    then show ?thesis using assms by (auto simp: in_volume_def cubic_def)
  qed
qed

lemma cubic_update:
  assumes "cubic n vol" "z < n" "y < n"
  shows "cubic n (vol[z := (vol ! z)[y := (vol ! z ! y)[x := c]]])"
proof -
  have len: "length (vol ! z) = n" "length (vol ! z ! y) = n"
    using cubic_nth[OF assms] by auto
  have plane: "\<forall>row\<in>set (vol ! z). length row = n"
    by (rule cubic_rows[OF assms(1,2)])
  have "\<forall>row\<in>set ((vol ! z)[y := (vol ! z ! y)[x := c]]). length row = n"
    using plane len by (auto dest!: subsetD[OF set_update_subset_insert])
  then show ?thesis
    using assms len by (auto simp: cubic_def dest!: subsetD[OF set_update_subset_insert])
qed

lemma nth3_update:
  assumes "z < length vol" "y < length (vol ! z)" "x < length (vol ! z ! y)"
    and "z' < length vol"
  shows "vol[z := (vol ! z)[y := (vol ! z ! y)[x := c]]] ! z' ! y' ! x' =
     (if z' = z \<and> y' = y \<and> x' = x then c else vol ! z' ! y' ! x')"
proof (cases "z' = z")
  case zz: True
  show ?thesis
  proof (cases "y' = y")
    case True
    then show ?thesis using assms zz by (cases "x' = x") simp_all
  next
    case False
    then show ?thesis using assms zz by simp
  qed
next
  case False
  then show ?thesis using assms by simp
qed

lemma write3_cubic:
  assumes "cubic n vol" "0 \<le> z" "z < int n" "0 \<le> y" "y < int n" "0 \<le> x" "x < int n"
  shows "\<exists>vol'. write3 vol z y x c = Some vol' \<and> cubic n vol'
     \<and> (\<forall>z' y' x'. read3 vol' z' y' x' =
           (if z' = z \<and> y' = y \<and> x' = x then Some c else read3 vol z' y' x'))"
proof -
  define vol' where "vol' = vol[nat z := (vol ! nat z)[nat y := (vol ! nat z ! nat y)[nat x := c]]]"
  have nz: "nat z < n" and ny: "nat y < n" and nx: "nat x < n" using assms by auto
  have w: "write3 vol z y x c = Some vol'"
    using assms by (simp add: write3_def in_volume_cubic[OF assms(1)] vol'_def)
  have c': "cubic n vol'" unfolding vol'_def by (rule cubic_update[OF assms(1) nz ny])
  have len: "length vol = n" "length (vol ! nat z) = n" "length (vol ! nat z ! nat y) = n"
    using cubic_nth[OF assms(1) nz ny] assms(1) by (auto simp: cubic_def)
  have "read3 vol' z' y' x' =
           (if z' = z \<and> y' = y \<and> x' = x then Some c else read3 vol z' y' x')" for z' y' x'
  proof (cases "0 \<le> z' \<and> z' < int n \<and> 0 \<le> y' \<and> y' < int n \<and> 0 \<le> x' \<and> x' < int n")
    case True
    then have nn: "nat z' < n" "nat y' < n" "nat x' < n" by auto
    have eqs: "(nat z' = nat z) = (z' = z)" "(nat y' = nat y) = (y' = y)" "(nat x' = nat x) = (x' = x)"
      using True assms by auto
    have cell: "vol' ! nat z' ! nat y' ! nat x' =
        (if z' = z \<and> y' = y \<and> x' = x then c else vol ! nat z' ! nat y' ! nat x')"
      unfolding vol'_def using nn nz ny nx len eqs by (subst nth3_update) simp_all
    show ?thesis
      using True cell by (simp add: read3_def in_volume_cubic[OF c'] in_volume_cubic[OF assms(1)])
  next
    case False
    then show ?thesis
      using assms by (auto simp: read3_def in_volume_cubic[OF c'] in_volume_cubic[OF assms(1)])
  qed
  then show ?thesis using w c' by blast
qed

lemma binary_zero_volume: "binary_cells (zero_volume n)"
  by (simp add: binary_cells_def zero_volume_def)

lemma binary_update:
  assumes "binary_cells vol" "z < length vol" "y < length (vol ! z)"
  shows "binary_cells (vol[z := (vol ! z)[y := (vol ! z ! y)[x := 1]]])"
proof -
  have pz: "vol ! z \<in> set vol" and ry: "vol ! z ! y \<in> set (vol ! z)"
    using assms(2,3) by simp_all
  have row: "\<forall>c\<in>set (vol ! z ! y). c = 0 \<or> c = 1"
    using assms(1) pz ry unfolding binary_cells_def by blast
  then have row': "\<forall>c\<in>set ((vol ! z ! y)[x := 1]). c = 0 \<or> c = 1"
    by (auto dest!: subsetD[OF set_update_subset_insert])
  have plane: "\<forall>row\<in>set (vol ! z). \<forall>c\<in>set row. c = 0 \<or> c = 1"
    using assms(1) pz unfolding binary_cells_def by blast
  have plane': "\<forall>row\<in>set ((vol ! z)[y := (vol ! z ! y)[x := 1]]). \<forall>c\<in>set row. c = 0 \<or> c = 1"
  proof
    fix row assume "row \<in> set ((vol ! z)[y := (vol ! z ! y)[x := 1]])"
    then have "row = (vol ! z ! y)[x := 1] \<or> row \<in> set (vol ! z)"
      by (auto dest!: subsetD[OF set_update_subset_insert])
    then show "\<forall>c\<in>set row. c = 0 \<or> c = 1" using row' plane by blast
  qed
  show ?thesis
    unfolding binary_cells_def
  proof
    fix pl assume "pl \<in> set (vol[z := (vol ! z)[y := (vol ! z ! y)[x := 1]]])"
    then have "pl = (vol ! z)[y := (vol ! z ! y)[x := 1]] \<or> pl \<in> set vol"
      by (auto dest!: subsetD[OF set_update_subset_insert])
    then show "\<forall>row\<in>set pl. \<forall>c\<in>set row. c = 0 \<or> c = 1"
      using plane' assms(1) by (auto simp: binary_cells_def)
  qed
qed

lemma write3_binary:
  assumes "cubic n vol" "binary_cells vol"
    and "0 \<le> z" "z < int n" "0 \<le> y" "y < int n" "0 \<le> x" "x < int n"
  shows "\<exists>vol'. write3 vol z y x 1 = Some vol' \<and> cubic n vol' \<and> binary_cells vol'"
proof -
  have nz: "nat z < n" and ny: "nat y < n" using assms by auto
  have len: "length vol = n" "length (vol ! nat z) = n"
    using cubic_nth[OF assms(1) nz ny] assms(1) by (auto simp: cubic_def)
  have "binary_cells (vol[nat z := (vol ! nat z)[nat y := (vol ! nat z ! nat y)[nat x := 1]]])"
    using nz ny len by (intro binary_update[OF assms(2)]) simp_all
  moreover have "cubic n (vol[nat z := (vol ! nat z)[nat y := (vol ! nat z ! nat y)[nat x := 1]]])"
    by (rule cubic_update[OF assms(1) nz ny])
  ultimately show ?thesis
    using assms by (simp add: write3_def in_volume_cubic[OF assms(1)])
qed

lemma forEach_invariant:
  assumes "\<And>a s. a \<in> set xs \<Longrightarrow> I s \<Longrightarrow> \<exists>s'. body a s = Some s' \<and> I s'" and "I s"
  shows "\<exists>s'. forEach body xs s = Some s' \<and> I s'"
  using assms
proof (induction xs arbitrary: s)
  case Nil
  then show ?case by simp
next
  case (Cons a xs)
  from Cons.prems(1)[of a s] Cons.prems(2) obtain s1 where s1: "body a s = Some s1" "I s1"
    by auto
  have "\<exists>s'. forEach body xs s1 = Some s' \<and> I s'"
    using Cons.prems(1) s1(2) by (intro Cons.IH) auto
  then show ?case using s1(1) by simp
qed

lemma forEach_skip:
  assumes "\<And>a s. a \<in> set xs \<Longrightarrow> body a s = Some s"
  shows "forEach body xs s = Some s"
  using assms by (induction xs arbitrary: s) simp_all

lemma inside_grid_index:
  assumes "inside_grid n (js_floor e)"
  shows "\<exists>i. js_index (js_floor e) = Some i \<and> 0 \<le> i \<and> i < int n"
proof (cases e)
  case (Fin a)
  then have "0 \<le> real_of_int \<lfloor>a\<rfloor>" "real_of_int \<lfloor>a\<rfloor> < real n"
    using assms by (simp_all add: inside_grid_def js_ge_def)
  then have "0 \<le> \<lfloor>a\<rfloor>" "\<lfloor>a\<rfloor> < int n" by linarith+
  then show ?thesis using Fin by simp
qed (use assms in \<open>simp_all add: inside_grid_def js_ge_def\<close>)

lemma voxel_step_invariant:
  assumes "cubic n vol" "binary_cells vol"
  shows "\<exists>vol'. voxel_step n mn sz scale vertex vol = Some vol' \<and> cubic n vol' \<and> binary_cells vol'"
proof (cases "inside_grid n (voxel_coord n mn sz scale vertex 0)
    \<and> inside_grid n (voxel_coord n mn sz scale vertex 1)
    \<and> inside_grid n (voxel_coord n mn sz scale vertex 2)")
  case True
  then obtain xi yi zi where
    x: "js_index (voxel_coord n mn sz scale vertex 0) = Some xi" "0 \<le> xi" "xi < int n" and
    y: "js_index (voxel_coord n mn sz scale vertex 1) = Some yi" "0 \<le> yi" "yi < int n" and
    z: "js_index (voxel_coord n mn sz scale vertex 2) = Some zi" "0 \<le> zi" "zi < int n"
    unfolding voxel_coord_def by (meson inside_grid_index)
  show ?thesis
    using True x(1) y(1) z(1) write3_binary[OF assms z(2,3) y(2,3) x(2,3)]
    by (simp add: voxel_step_def Let_def)
next
  case False
  then show ?thesis using assms by (auto simp: voxel_step_def Let_def)
qed

lemma meshToVoxels_invariant:
  "\<exists>voxels. meshToVoxels mesh gridSize = Some voxels \<and> cubic gridSize voxels \<and> binary_cells voxels"
  unfolding meshToVoxels_def Let_def
  by (rule forEach_invariant[where I = "\<lambda>v. cubic gridSize v \<and> binary_cells v"])
     (use voxel_step_invariant cubic_zero_volume binary_zero_volume in blast)+

text \<open>
  C10. The voxelizer is total: for every mesh (also one without vertices, with vertices
  of fewer than three coordinates, with NaN or infinite coordinates or with a bounding
  box of extent zero) and every grid size it returns a grid of
  \<open>gridSize \<times> gridSize \<times> gridSize\<close> cells, each \<open>0\<close> or \<open>1\<close>, so no write fell
  outside the grid; and a vertex one of whose floored coordinates is outside
  \<open>[0, gridSize)\<close> leaves the grid as it is.
\<close>

theorem meshToVoxels_total:
  "(\<exists>voxels. meshToVoxels mesh gridSize = Some voxels \<and> length voxels = gridSize
      \<and> (\<forall>plane\<in>set voxels. length plane = gridSize
           \<and> (\<forall>row\<in>set plane. length row = gridSize \<and> (\<forall>c\<in>set row. c = 0 \<or> c = 1))))
   \<and> (\<forall>mn sz scale vertex voxels.
         \<not> (inside_grid gridSize (voxel_coord gridSize mn sz scale vertex 0)
            \<and> inside_grid gridSize (voxel_coord gridSize mn sz scale vertex 1)
            \<and> inside_grid gridSize (voxel_coord gridSize mn sz scale vertex 2))
         \<longrightarrow> voxel_step gridSize mn sz scale vertex voxels = Some voxels)"
proof -
  obtain voxels where v: "meshToVoxels mesh gridSize = Some voxels" "cubic gridSize voxels"
    "binary_cells voxels"
    using meshToVoxels_invariant by blast
  have "length voxels = gridSize
      \<and> (\<forall>plane\<in>set voxels. length plane = gridSize
           \<and> (\<forall>row\<in>set plane. length row = gridSize \<and> (\<forall>c\<in>set row. c = 0 \<or> c = 1)))"
    using v(2,3) unfolding cubic_def binary_cells_def by blast
  then show ?thesis using v(1) by (auto simp: voxel_step_def Let_def)
qed

theorem meshToVoxels_total_witness:
  "(\<exists>voxels. meshToVoxels \<lparr>vertices = [[Fin 0, Fin 0, Fin 0], [Fin 1, Fin 1, Fin 1]],
        triangles = []\<rparr> 5 = Some voxels \<and> length voxels = 5)
   \<and> voxel_step 5 [Fin 0, Fin 0, Fin 0] [Fin 1, Fin 1, Fin 1] (Fin 4) [Fin 2, Fin 0, Fin 0]
        (zero_volume 5) = Some (zero_volume 5)"
proof -
  have "\<not> inside_grid 5 (voxel_coord 5 [Fin 0, Fin 0, Fin 0] [Fin 1, Fin 1, Fin 1] (Fin 4)
      [Fin 2, Fin 0, Fin 0] 0)"
    by (simp add: inside_grid_def voxel_coord_def coord_def js_sub_def js_ge_def)
  then show ?thesis
    using meshToVoxels_total[of "\<lparr>vertices = [[Fin 0, Fin 0, Fin 0], [Fin 1, Fin 1, Fin 1]],
        triangles = []\<rparr>" 5]
    by blast
qed

section \<open>meshToVoxels on a degenerate mesh\<close>

lemma js_add_NaN_right: "js_add a NaN = NaN"
  by (cases a) simp_all

lemma voxel_coord_zero_extent:
  assumes "i < 3"
  shows "voxel_coord n mn [Fin 0, Fin 0, Fin 0] (js_div (Fin (real n * 0.8)) (Fin 0)) vertex i = NaN"
proof -
  have sc: "js_div (Fin (real n * 0.8)) (Fin 0) = NaN \<or> js_div (Fin (real n * 0.8)) (Fin 0) = PInf"
    by (simp add: signed_inf_def)
  have "[Fin 0, Fin 0, Fin 0] ! i = Fin 0"
    using assms by (cases i rule: nat.exhaust; simp add: nth_Cons split: nat.splits)
  then have "js_mul ([Fin 0, Fin 0, Fin 0] ! i) (js_div (Fin (real n * 0.8)) (Fin 0)) = NaN"
    using sc by auto
  then show ?thesis
    by (simp add: voxel_coord_def js_sub_def js_add_NaN_right)
qed

text \<open>
  C4 (as stated). On a mesh without vertices, and on a mesh whose bounding box has
  extent zero on every axis, the voxelizer does not fail: it returns the grid with no
  cell occupied.
\<close>

theorem meshToVoxels_degenerate_counterexample:
  "meshToVoxels \<lparr>vertices = [], triangles = []\<rparr> 2 = Some [[[0, 0], [0, 0]], [[0, 0], [0, 0]]]
   \<and> meshToVoxels \<lparr>vertices = [[Fin 1, Fin 2, Fin 3], [Fin 1, Fin 2, Fin 3], [Fin 1, Fin 2, Fin 3]],
        triangles = [[0, 1, 2]]\<rparr> 2 = Some [[[0, 0], [0, 0]], [[0, 0], [0, 0]]]"
  by (simp add: meshToVoxels_def Let_def zero_volume_def bounding_box_def bbox_step_def coord_def
      js_min_def js_max_def js_max_list_def js_sub_def voxel_step_def voxel_coord_def
      inside_grid_def js_ge_def signed_inf_def upt_rec numeral_2_eq_2 numeral_3_eq_3)

text \<open>
  C4 (amended). On a degenerate mesh (no vertices, or a bounding box of extent zero on
  every axis) the voxelizer raises no error: it returns the all-zero grid of
  \<open>gridSize \<times> gridSize \<times> gridSize\<close> cells. The division by the zero extent gives an
  infinite scale (NaN when \<open>gridSize\<close> is zero), every vertex position becomes NaN, and
  every vertex is skipped.
\<close>

theorem meshToVoxels_degenerate:
  assumes "vertices mesh = [] \<or> mesh_extent mesh = [Fin 0, Fin 0, Fin 0]"
  shows "meshToVoxels mesh gridSize = Some (zero_volume gridSize)"
proof (cases "vertices mesh = []")
  case True
  then show ?thesis by (simp add: meshToVoxels_def Let_def)
next
  case False
  then have ext: "mesh_extent mesh = [Fin 0, Fin 0, Fin 0]" using assms by simp
  have mx: "js_max_list [Fin 0, Fin 0, Fin 0] = Fin 0"
    by (simp add: js_max_list_def js_max_def)
  have skip: "voxel_step gridSize mn [Fin 0, Fin 0, Fin 0]
      (js_div (Fin (real gridSize * 0.8)) (Fin 0)) vertex voxels = Some voxels" for mn vertex voxels
  proof -
    have "voxel_coord gridSize mn [Fin 0, Fin 0, Fin 0]
        (js_div (Fin (real gridSize * 0.8)) (Fin 0)) vertex 0 = NaN"
      by (rule voxel_coord_zero_extent) simp
    then have "\<not> inside_grid gridSize (voxel_coord gridSize mn [Fin 0, Fin 0, Fin 0]
        (js_div (Fin (real gridSize * 0.8)) (Fin 0)) vertex 0)"
      by (simp only: inside_grid_def js_ge_def js_le.simps simp_thms)
    then show ?thesis
      unfolding voxel_step_def Let_def by (simp only: simp_thms if_False)
  qed
  have ext': "map (\<lambda>i. js_sub (snd (bounding_box (vertices mesh)) ! i)
      (fst (bounding_box (vertices mesh)) ! i)) [0..<3] = [Fin 0, Fin 0, Fin 0]"
    using ext unfolding mesh_extent_def Let_def .
  show ?thesis
    unfolding meshToVoxels_def Let_def ext' mx by (rule forEach_skip[OF skip])
qed

theorem meshToVoxels_degenerate_witness:
  "meshToVoxels \<lparr>vertices = [[Fin 5, Fin 6, Fin 7]], triangles = []\<rparr> 3 = Some (zero_volume 3)"
proof -
  have "mesh_extent \<lparr>vertices = [[Fin 5, Fin 6, Fin 7]], triangles = []\<rparr> = [Fin 0, Fin 0, Fin 0]"
    by (simp add: mesh_extent_def bounding_box_def bbox_step_def coord_def js_min_def js_max_def
        js_sub_def upt_rec numeral_3_eq_3)
  then show ?thesis
    using meshToVoxels_degenerate[of "\<lparr>vertices = [[Fin 5, Fin 6, Fin 7]], triangles = []\<rparr>" 3]
    by simp
qed

section \<open>The cube fixture\<close>


lemma forEach_paint:
  assumes body: "\<And>a m. a \<in> set as \<Longrightarrow> cubic n m \<Longrightarrow>
      \<exists>m'. body a m = Some m' \<and> cubic n m'
        \<and> (\<forall>z y x. read3 m' z y x = (if Q a z y x then Some c else read3 m z y x))"
    and "cubic n m"
  shows "\<exists>m'. forEach body as m = Some m' \<and> cubic n m'
        \<and> (\<forall>z y x. read3 m' z y x = (if (\<exists>a\<in>set as. Q a z y x) then Some c else read3 m z y x))"
  using assms
proof (induction as arbitrary: m)
  case Nil
  then show ?case by simp
next
  case (Cons a as)
  from Cons.prems(1)[of a m] Cons.prems(2) obtain m1 where
    m1: "body a m = Some m1" "cubic n m1"
      "\<And>z y x. read3 m1 z y x = (if Q a z y x then Some c else read3 m z y x)"
    by auto
  have "\<exists>m'. forEach body as m1 = Some m' \<and> cubic n m'
        \<and> (\<forall>z y x. read3 m' z y x = (if (\<exists>a\<in>set as. Q a z y x) then Some c else read3 m1 z y x))"
    using Cons.prems(1) m1(2) by (intro Cons.IH) auto
  then obtain m' where
    m': "forEach body as m1 = Some m'" "cubic n m'"
      "\<And>z y x. read3 m' z y x = (if (\<exists>a\<in>set as. Q a z y x) then Some c else read3 m1 z y x)"
    by auto
  have "read3 m' z y x = (if (\<exists>a\<in>set (a # as). Q a z y x) then Some c else read3 m z y x)"
    for z y x
    by (simp add: m'(3) m1(3))
  then show ?case using m1(1) m'(1,2) by simp
qed

lemma paint_row:
  assumes "cubic n m" "0 \<le> z" "z < int n" "0 \<le> y" "y < int n" "0 \<le> lo" "hi \<le> int n"
  shows "\<exists>m'. forEach (\<lambda>x model. write3 model z y x 1) [lo..hi - 1] m = Some m' \<and> cubic n m'
        \<and> (\<forall>z' y' x'. read3 m' z' y' x' =
              (if (\<exists>a\<in>set [lo..hi - 1]. z' = z \<and> y' = y \<and> x' = a) then Some 1 else read3 m z' y' x'))"
proof (rule forEach_paint[OF _ assms(1)])
  fix a m assume a: "a \<in> set [lo..hi - 1]" and m: "cubic n m"
  then have "0 \<le> a" "a < int n" using assms by auto
  from write3_cubic[OF m assms(2,3,4,5) this, of 1]
  show "\<exists>m'. write3 m z y a 1 = Some m' \<and> cubic n m'
      \<and> (\<forall>z' y' x'. read3 m' z' y' x' =
            (if z' = z \<and> y' = y \<and> x' = a then Some 1 else read3 m z' y' x'))" .
qed

lemma paint_plane:
  assumes "cubic n m" "0 \<le> z" "z < int n" "0 \<le> lo" "hi \<le> int n"
  shows "\<exists>m'. forEach (\<lambda>y. forEach (\<lambda>x model. write3 model z y x 1) [lo..hi - 1]) [lo..hi - 1] m
          = Some m' \<and> cubic n m'
        \<and> (\<forall>z' y' x'. read3 m' z' y' x' =
              (if (\<exists>b\<in>set [lo..hi - 1]. \<exists>a\<in>set [lo..hi - 1]. z' = z \<and> y' = b \<and> x' = a)
               then Some 1 else read3 m z' y' x'))"
proof (rule forEach_paint[OF _ assms(1)])
  fix b m assume b: "b \<in> set [lo..hi - 1]" and m: "cubic n m"
  then have "0 \<le> b" "b < int n" using assms by auto
  from paint_row[OF m assms(2,3) this assms(4,5)]
  show "\<exists>m'. forEach (\<lambda>x model. write3 model z b x 1) [lo..hi - 1] m = Some m' \<and> cubic n m'
      \<and> (\<forall>z' y' x'. read3 m' z' y' x' =
            (if (\<exists>a\<in>set [lo..hi - 1]. z' = z \<and> y' = b \<and> x' = a) then Some 1 else read3 m z' y' x'))" .
qed

lemma paint_cube:
  assumes "cubic n m" "0 \<le> lo" "hi \<le> int n"
  shows "\<exists>m'. forEach (\<lambda>z. forEach (\<lambda>y. forEach (\<lambda>x model. write3 model z y x 1)
            [lo..hi - 1]) [lo..hi - 1]) [lo..hi - 1] m = Some m' \<and> cubic n m'
        \<and> (\<forall>z' y' x'. read3 m' z' y' x' =
              (if (\<exists>c\<in>set [lo..hi - 1]. \<exists>b\<in>set [lo..hi - 1]. \<exists>a\<in>set [lo..hi - 1].
                     z' = c \<and> y' = b \<and> x' = a)
               then Some 1 else read3 m z' y' x'))"
proof (rule forEach_paint[OF _ assms(1)])
  fix c m assume c: "c \<in> set [lo..hi - 1]" and m: "cubic n m"
  then have "0 \<le> c" "c < int n" using assms by auto
  from paint_plane[OF m this assms(2,3)]
  show "\<exists>m'. forEach (\<lambda>y. forEach (\<lambda>x model. write3 model c y x 1) [lo..hi - 1]) [lo..hi - 1] m
          = Some m' \<and> cubic n m'
      \<and> (\<forall>z' y' x'. read3 m' z' y' x' =
            (if (\<exists>b\<in>set [lo..hi - 1]. \<exists>a\<in>set [lo..hi - 1]. z' = c \<and> y' = b \<and> x' = a)
             then Some 1 else read3 m z' y' x'))" .
qed

lemma paint_cube_cells:
  assumes "cubic n m" "0 \<le> lo" "hi \<le> int n"
  shows "\<exists>m'. forEach (\<lambda>z. forEach (\<lambda>y. forEach (\<lambda>x model. write3 model z y x 1)
            [lo..hi - 1]) [lo..hi - 1]) [lo..hi - 1] m = Some m' \<and> cubic n m'
        \<and> (\<forall>z y x. read3 m' z y x =
              (if lo \<le> z \<and> z < hi \<and> lo \<le> y \<and> y < hi \<and> lo \<le> x \<and> x < hi
               then Some 1 else read3 m z y x))"
proof -
  have eq: "(\<exists>c\<in>set [lo..hi - 1]. \<exists>b\<in>set [lo..hi - 1]. \<exists>a\<in>set [lo..hi - 1].
                     z = c \<and> y = b \<and> x = a)
        = (lo \<le> z \<and> z < hi \<and> lo \<le> y \<and> y < hi \<and> lo \<le> x \<and> x < hi)" for z y x :: int
    by auto
  show ?thesis
    using paint_cube[OF assms] unfolding eq .
qed

lemma read3_zero_volume:
  "read3 (zero_volume n) z y x =
     (if 0 \<le> z \<and> z < int n \<and> 0 \<le> y \<and> y < int n \<and> 0 \<le> x \<and> x < int n then Some 0 else None)"
proof -
  have iv: "in_volume (zero_volume n) z y x =
      (0 \<le> z \<and> z < int n \<and> 0 \<le> y \<and> y < int n \<and> 0 \<le> x \<and> x < int n)"
    by (rule in_volume_cubic[OF cubic_zero_volume])
  have cell: "zero_volume n ! nat z ! nat y ! nat x = 0"
    if "0 \<le> z \<and> z < int n \<and> 0 \<le> y \<and> y < int n \<and> 0 \<le> x \<and> x < int n"
  proof -
    have "nat z < n" "nat y < n" "nat x < n" using that by auto
    then show ?thesis by (simp add: zero_volume_def)
  qed
  show ?thesis
    unfolding read3_def iv using cell by auto
qed

lemma cube_span_64:
  "\<lfloor>(real 64 - real 64 * 0.4) / 2\<rfloor> = 19"
  "\<lfloor>(real 64 - real 64 * 0.4) / 2 + real 64 * 0.4\<rfloor> = 44"
  by simp_all

lemma cube_64_cells:
  "\<exists>model. createTestModel_cube 64 = Some model \<and> cubic 64 model
     \<and> (\<forall>z y x. read3 model z y x =
          (if 19 \<le> z \<and> z < 44 \<and> 19 \<le> y \<and> y < 44 \<and> 19 \<le> x \<and> x < 44 then Some 1
           else if 0 \<le> z \<and> z < 64 \<and> 0 \<le> y \<and> y < 64 \<and> 0 \<le> x \<and> x < 64 then Some 0
           else None))"
proof -
  have "\<exists>m'. forEach (\<lambda>z. forEach (\<lambda>y. forEach (\<lambda>x model. write3 model z y x 1)
            [19..44 - 1]) [19..44 - 1]) [19..44 - 1] (zero_volume 64) = Some m' \<and> cubic 64 m'
        \<and> (\<forall>z y x. read3 m' z y x =
              (if 19 \<le> z \<and> z < 44 \<and> 19 \<le> y \<and> y < 44 \<and> 19 \<le> x \<and> x < 44
               then Some 1 else read3 (zero_volume 64) z y x))"
    by (rule paint_cube_cells[OF cubic_zero_volume]) simp_all
  then show ?thesis
    unfolding createTestModel_cube_def Let_def cube_span_64 read3_zero_volume
    by (simp only: of_nat_numeral)
qed

text \<open>
  C5 (as stated). At \<open>N = 64\<close> the interval of the specification is \<open>[19, 44.6)\<close>
  and contains \<open>44\<close>, but the loops of the code stop before \<open>Math.floor(44.8) = 44\<close>:
  cell \<open>(x, y, z) = (44, 19, 19)\<close> is inside the stated cube and is not occupied.
\<close>

theorem cube_fixture_counterexample:
  "spec_cube_occupied 64 44 19 19
   \<and> (\<exists>model. createTestModel_cube 64 = Some model \<and> read3 model 19 19 44 = Some 0)"
proof -
  have "spec_cube_occupied 64 44 19 19"
    by (simp add: spec_cube_occupied_def spec_cube_interval_def round_def)
  moreover have "\<exists>model. createTestModel_cube 64 = Some model \<and> read3 model 19 19 44 = Some 0"
  proof -
    from cube_64_cells obtain model where m: "createTestModel_cube 64 = Some model"
      and cells: "\<And>z y x. read3 model z y x =
          (if 19 \<le> z \<and> z < 44 \<and> 19 \<le> y \<and> y < 44 \<and> 19 \<le> x \<and> x < 44 then Some 1
           else if 0 \<le> z \<and> z < 64 \<and> 0 \<le> y \<and> y < 64 \<and> 0 \<le> x \<and> x < 64 then Some 0
           else None)"
      by blast
    have "read3 model 19 19 44 = Some 0" by (simp add: cells)
    then show ?thesis using m by blast
  qed
  ultimately show ?thesis by simp
qed

text \<open>
  C5 (amended). For the cube model at \<open>N = 64\<close>, cell \<open>(x, y, z)\<close> of the built grid is
  occupied iff each of \<open>x\<close>, \<open>y\<close>, \<open>z\<close> lies in
  \<open>[floor((N - 0.4N)/2), floor((N - 0.4N)/2 + 0.4N)) = [19, 44)\<close>.
\<close>

theorem cube_fixture_64:
  "\<exists>model. createTestModel_cube 64 = Some model \<and> cubic 64 model
     \<and> (\<forall>x y z. 0 \<le> x \<and> x < 64 \<and> 0 \<le> y \<and> y < 64 \<and> 0 \<le> z \<and> z < 64 \<longrightarrow>
          read3 model z y x =
            Some (if 19 \<le> x \<and> x < 44 \<and> 19 \<le> y \<and> y < 44 \<and> 19 \<le> z \<and> z < 44 then 1 else 0))"
proof -
  from cube_64_cells obtain model where m: "createTestModel_cube 64 = Some model"
    "cubic 64 model"
    "\<And>z y x. read3 model z y x =
          (if 19 \<le> z \<and> z < 44 \<and> 19 \<le> y \<and> y < 44 \<and> 19 \<le> x \<and> x < 44 then Some 1
           else if 0 \<le> z \<and> z < 64 \<and> 0 \<le> y \<and> y < 64 \<and> 0 \<le> x \<and> x < 64 then Some 0
           else None)"
    by blast
  show ?thesis
    by (rule exI[of _ model]) (simp add: m)
qed

theorem cube_fixture_64_witness:
  "\<exists>model. createTestModel_cube 64 = Some model
     \<and> read3 model 19 19 19 = Some 1 \<and> read3 model 43 43 43 = Some 1
     \<and> read3 model 19 19 18 = Some 0 \<and> read3 model 19 19 44 = Some 0"
proof -
  from cube_fixture_64 obtain model where m: "createTestModel_cube 64 = Some model"
    and cells: "\<forall>x y z. 0 \<le> x \<and> x < 64 \<and> 0 \<le> y \<and> y < 64 \<and> 0 \<le> z \<and> z < 64 \<longrightarrow>
          read3 model z y x =
            Some (if 19 \<le> x \<and> x < 44 \<and> 19 \<le> y \<and> y < 44 \<and> 19 \<le> z \<and> z < 44 then 1 else 0)"
    by blast
  have "read3 model 19 19 19 = Some 1" using cells[rule_format, of 19 19 19] by simp
  moreover have "read3 model 43 43 43 = Some 1" using cells[rule_format, of 43 43 43] by simp
  moreover have "read3 model 19 19 18 = Some 0" using cells[rule_format, of 18 19 19] by simp
  moreover have "read3 model 19 19 44 = Some 0" using cells[rule_format, of 44 19 19] by simp
  ultimately show ?thesis using m by blast
qed


section \<open>The Radon kernel\<close>
lemma lerp_bounds:
  fixes a b d lo hi :: real
  assumes "lo \<le> a" "a \<le> hi" "lo \<le> b" "b \<le> hi" "0 \<le> d" "d \<le> 1"
  shows "lo \<le> a * (1 - d) + b * d" "a * (1 - d) + b * d \<le> hi"
proof -
  have d1: "0 \<le> 1 - d" using assms by simp
  have "lo * (1 - d) + lo * d \<le> a * (1 - d) + b * d"
    by (intro add_mono mult_right_mono assms d1)
  then show "lo \<le> a * (1 - d) + b * d" by (simp add: algebra_simps)
  have "a * (1 - d) + b * d \<le> hi * (1 - d) + hi * d"
    by (intro add_mono mult_right_mono assms d1)
  then show "a * (1 - d) + b * d \<le> hi" by (simp add: algebra_simps)
qed

lemma frac_part_bounds: "0 \<le> x - real_of_int \<lfloor>x\<rfloor>" "x - real_of_int \<lfloor>x\<rfloor> \<le> 1"
  by linarith+

lemma interpolate_local:
  assumes r000: "read3 vol \<lfloor>z\<rfloor> \<lfloor>y\<rfloor> \<lfloor>x\<rfloor> = Some c000" "lo \<le> c000" "c000 \<le> hi"
    and r100: "read3 vol \<lfloor>z\<rfloor> \<lfloor>y\<rfloor> (\<lfloor>x\<rfloor> + 1) = Some c100" "lo \<le> c100" "c100 \<le> hi"
    and r010: "read3 vol \<lfloor>z\<rfloor> (\<lfloor>y\<rfloor> + 1) \<lfloor>x\<rfloor> = Some c010" "lo \<le> c010" "c010 \<le> hi"
    and r110: "read3 vol \<lfloor>z\<rfloor> (\<lfloor>y\<rfloor> + 1) (\<lfloor>x\<rfloor> + 1) = Some c110" "lo \<le> c110" "c110 \<le> hi"
    and r001: "read3 vol (\<lfloor>z\<rfloor> + 1) \<lfloor>y\<rfloor> \<lfloor>x\<rfloor> = Some c001" "lo \<le> c001" "c001 \<le> hi"
    and r101: "read3 vol (\<lfloor>z\<rfloor> + 1) \<lfloor>y\<rfloor> (\<lfloor>x\<rfloor> + 1) = Some c101" "lo \<le> c101" "c101 \<le> hi"
    and r011: "read3 vol (\<lfloor>z\<rfloor> + 1) (\<lfloor>y\<rfloor> + 1) \<lfloor>x\<rfloor> = Some c011" "lo \<le> c011" "c011 \<le> hi"
    and r111: "read3 vol (\<lfloor>z\<rfloor> + 1) (\<lfloor>y\<rfloor> + 1) (\<lfloor>x\<rfloor> + 1) = Some c111" "lo \<le> c111" "c111 \<le> hi"
  shows "\<exists>c. interpolate vol x y z = Some c \<and> lo \<le> c \<and> c \<le> hi"
proof -
  define dx where "dx = x - real_of_int \<lfloor>x\<rfloor>"
  define dy where "dy = y - real_of_int \<lfloor>y\<rfloor>"
  define dz where "dz = z - real_of_int \<lfloor>z\<rfloor>"
  have dx: "0 \<le> dx" "dx \<le> 1" and dy: "0 \<le> dy" "dy \<le> 1" and dz: "0 \<le> dz" "dz \<le> 1"
    unfolding dx_def dy_def dz_def by (rule frac_part_bounds)+
  define c00 where "c00 = c000 * (1 - dx) + c100 * dx"
  define c01 where "c01 = c001 * (1 - dx) + c101 * dx"
  define c10 where "c10 = c010 * (1 - dx) + c110 * dx"
  define c11 where "c11 = c011 * (1 - dx) + c111 * dx"
  define c0 where "c0 = c00 * (1 - dy) + c10 * dy"
  define c1 where "c1 = c01 * (1 - dy) + c11 * dy"
  have b00: "lo \<le> c00" "c00 \<le> hi" unfolding c00_def
    by (rule lerp_bounds[OF r000(2,3) r100(2,3) dx])+
  have b01: "lo \<le> c01" "c01 \<le> hi" unfolding c01_def
    by (rule lerp_bounds[OF r001(2,3) r101(2,3) dx])+
  have b10: "lo \<le> c10" "c10 \<le> hi" unfolding c10_def
    by (rule lerp_bounds[OF r010(2,3) r110(2,3) dx])+
  have b11: "lo \<le> c11" "c11 \<le> hi" unfolding c11_def
    by (rule lerp_bounds[OF r011(2,3) r111(2,3) dx])+
  have b0: "lo \<le> c0" "c0 \<le> hi" unfolding c0_def
    by (rule lerp_bounds[OF b00 b10 dy])+
  have b1: "lo \<le> c1" "c1 \<le> hi" unfolding c1_def
    by (rule lerp_bounds[OF b01 b11 dy])+
  have b: "lo \<le> c0 * (1 - dz) + c1 * dz" "c0 * (1 - dz) + c1 * dz \<le> hi"
    by (rule lerp_bounds[OF b0 b1 dz])+
  have "interpolate vol x y z = Some (c0 * (1 - dz) + c1 * dz)"
    unfolding interpolate_def Let_def
    by (simp add: r000(1) r100(1) r010(1) r110(1) r001(1) r101(1) r011(1) r111(1)
        c0_def c1_def c00_def c01_def c10_def c11_def dx_def dy_def dz_def)
  then show ?thesis using b by simp
qed

lemma read3_unit_cells:
  assumes "unit_cells vol"
  shows "\<forall>z y x c. read3 vol z y x = Some c \<longrightarrow> 0 \<le> c \<and> c \<le> 1"
proof (intro allI impI)
  fix z y x c assume rd: "read3 vol z y x = Some c"
  have iv: "in_volume vol z y x" and c: "c = vol ! nat z ! nat y ! nat x"
    using rd by (auto simp: read3_def split: if_splits)
  have n: "nat z < length vol" "nat y < length (vol ! nat z)"
    "nat x < length (vol ! nat z ! nat y)"
    using iv by (auto simp: in_volume_def)
  have "vol ! nat z \<in> set vol" using n(1) by (rule nth_mem)
  moreover have "vol ! nat z ! nat y \<in> set (vol ! nat z)" using n(2) by (rule nth_mem)
  moreover have "c \<in> set (vol ! nat z ! nat y)" unfolding c using n(3) by (rule nth_mem)
  ultimately show "0 \<le> c \<and> c \<le> 1" using assms(1) unfolding unit_cells_def by blast
qed

lemma read3_cubic_Some:
  assumes "cubic n vol" "0 \<le> z" "z < int n" "0 \<le> y" "y < int n" "0 \<le> x" "x < int n"
  shows "\<exists>c. read3 vol z y x = Some c"
  using assms by (simp add: read3_def in_volume_cubic[OF assms(1)])

lemma in_bounds_floor:
  assumes "in_bounds (real n) (x, y, z)"
  shows "0 \<le> \<lfloor>x\<rfloor>" "\<lfloor>x\<rfloor> + 1 < int n" "0 \<le> \<lfloor>y\<rfloor>" "\<lfloor>y\<rfloor> + 1 < int n" "0 \<le> \<lfloor>z\<rfloor>" "\<lfloor>z\<rfloor> + 1 < int n"
proof -
  have b: "0 \<le> x" "x < real n - 1" "0 \<le> y" "y < real n - 1" "0 \<le> z" "z < real n - 1"
    using assms by (simp_all add: in_bounds_def)
  show "0 \<le> \<lfloor>x\<rfloor>" "0 \<le> \<lfloor>y\<rfloor>" "0 \<le> \<lfloor>z\<rfloor>" using b by simp_all
  have "real_of_int \<lfloor>x\<rfloor> \<le> x" "real_of_int \<lfloor>y\<rfloor> \<le> y" "real_of_int \<lfloor>z\<rfloor> \<le> z" by simp_all
  then have "real_of_int \<lfloor>x\<rfloor> + 1 < real n" "real_of_int \<lfloor>y\<rfloor> + 1 < real n"
    "real_of_int \<lfloor>z\<rfloor> + 1 < real n"
    using b by linarith+
  then show "\<lfloor>x\<rfloor> + 1 < int n" "\<lfloor>y\<rfloor> + 1 < int n" "\<lfloor>z\<rfloor> + 1 < int n" by linarith+
qed

lemma interpolate_cubic:
  assumes "cubic n vol" "in_bounds (real n) (x, y, z)"
    and cells: "\<forall>z y x c. read3 vol z y x = Some c \<longrightarrow> lo \<le> c \<and> c \<le> hi"
  shows "\<exists>c. interpolate vol x y z = Some c \<and> lo \<le> c \<and> c \<le> hi"
proof -
  note f = in_bounds_floor[OF assms(2)]
  have rd: "\<exists>c. read3 vol k j i = Some c \<and> lo \<le> c \<and> c \<le> hi"
    if "0 \<le> k" "k < int n" "0 \<le> j" "j < int n" "0 \<le> i" "i < int n" for k j i
    using read3_cubic_Some[OF assms(1) that] cells by blast
  obtain c000 where 1: "read3 vol \<lfloor>z\<rfloor> \<lfloor>y\<rfloor> \<lfloor>x\<rfloor> = Some c000" "lo \<le> c000" "c000 \<le> hi"
    using rd[of "\<lfloor>z\<rfloor>" "\<lfloor>y\<rfloor>" "\<lfloor>x\<rfloor>"] f by auto
  obtain c100 where 2: "read3 vol \<lfloor>z\<rfloor> \<lfloor>y\<rfloor> (\<lfloor>x\<rfloor> + 1) = Some c100" "lo \<le> c100" "c100 \<le> hi"
    using rd[of "\<lfloor>z\<rfloor>" "\<lfloor>y\<rfloor>" "\<lfloor>x\<rfloor> + 1"] f by auto
  obtain c010 where 3: "read3 vol \<lfloor>z\<rfloor> (\<lfloor>y\<rfloor> + 1) \<lfloor>x\<rfloor> = Some c010" "lo \<le> c010" "c010 \<le> hi"
    using rd[of "\<lfloor>z\<rfloor>" "\<lfloor>y\<rfloor> + 1" "\<lfloor>x\<rfloor>"] f by auto
  obtain c110 where 4: "read3 vol \<lfloor>z\<rfloor> (\<lfloor>y\<rfloor> + 1) (\<lfloor>x\<rfloor> + 1) = Some c110" "lo \<le> c110" "c110 \<le> hi"
    using rd[of "\<lfloor>z\<rfloor>" "\<lfloor>y\<rfloor> + 1" "\<lfloor>x\<rfloor> + 1"] f by auto
  obtain c001 where 5: "read3 vol (\<lfloor>z\<rfloor> + 1) \<lfloor>y\<rfloor> \<lfloor>x\<rfloor> = Some c001" "lo \<le> c001" "c001 \<le> hi"
    using rd[of "\<lfloor>z\<rfloor> + 1" "\<lfloor>y\<rfloor>" "\<lfloor>x\<rfloor>"] f by auto
  obtain c101 where 6: "read3 vol (\<lfloor>z\<rfloor> + 1) \<lfloor>y\<rfloor> (\<lfloor>x\<rfloor> + 1) = Some c101" "lo \<le> c101" "c101 \<le> hi"
    using rd[of "\<lfloor>z\<rfloor> + 1" "\<lfloor>y\<rfloor>" "\<lfloor>x\<rfloor> + 1"] f by auto
  obtain c011 where 7: "read3 vol (\<lfloor>z\<rfloor> + 1) (\<lfloor>y\<rfloor> + 1) \<lfloor>x\<rfloor> = Some c011" "lo \<le> c011" "c011 \<le> hi"
    using rd[of "\<lfloor>z\<rfloor> + 1" "\<lfloor>y\<rfloor> + 1" "\<lfloor>x\<rfloor>"] f by auto
  obtain c111 where 8: "read3 vol (\<lfloor>z\<rfloor> + 1) (\<lfloor>y\<rfloor> + 1) (\<lfloor>x\<rfloor> + 1) = Some c111" "lo \<le> c111" "c111 \<le> hi"
    using rd[of "\<lfloor>z\<rfloor> + 1" "\<lfloor>y\<rfloor> + 1" "\<lfloor>x\<rfloor> + 1"] f by auto
  show ?thesis by (rule interpolate_local[OF 1 2 3 4 5 6 7 8])
qed

lemma march_steps_Suc:
  assumes "t < bound"
  shows "march_steps bound t = Suc (march_steps bound (t + 0.5))"
proof (cases "t + 0.5 < bound")
  case True
  have "\<lceil>(bound - (t + 0.5)) * 2\<rceil> = \<lceil>(bound - t) * 2 - 1\<rceil>"
    by (simp add: algebra_simps)
  also have "\<dots> = \<lceil>(bound - t) * 2\<rceil> - 1"
    by (metis ceiling_diff_one)
  finally have step: "\<lceil>(bound - (t + 0.5)) * 2\<rceil> = \<lceil>(bound - t) * 2\<rceil> - 1" .
  have "0 < \<lceil>(bound - (t + 0.5)) * 2\<rceil>"
    using True by (simp add: ceiling_less_iff)
  then have "nat \<lceil>(bound - t) * 2\<rceil> = Suc (nat \<lceil>(bound - (t + 0.5)) * 2\<rceil>)"
    unfolding step by linarith
  then show ?thesis
    unfolding march_steps_def using True assms by (simp only: if_True)
next
  case False
  have "0 < (bound - t) * 2" "(bound - t) * 2 \<le> 1" using assms False by simp_all
  then have "\<lceil>(bound - t) * 2\<rceil> = 1" by (intro ceiling_unique) simp_all
  then show ?thesis using False assms by (simp add: march_steps_def)
qed

lemma for_t_rule:
  assumes step: "\<And>t k acc. I k acc \<Longrightarrow> \<exists>acc'. body t acc = Some acc' \<and> I (Suc k) acc'"
    and "I k acc"
  shows "\<exists>r. for_t body bound t acc = Some r \<and> I (k + march_steps bound t) r"
  using assms
proof (induction body bound t acc arbitrary: k rule: for_t.induct)
  case (1 body bound t acc)
  show ?case
  proof (cases "t < bound")
    case True
    from "1.prems"(1)[OF "1.prems"(2)] obtain acc' where
      acc': "body t acc = Some acc'" "I (Suc k) acc'"
      by blast
    from "1.IH"[OF True acc'(1) "1.prems"(1) acc'(2)] obtain r where
      r: "for_t body bound (t + 0.5) acc' = Some r" "I (Suc k + march_steps bound (t + 0.5)) r"
      by blast
    have "for_t body bound t acc = Some r"
      by (subst for_t.simps) (use True acc'(1) r(1) in simp)
    then show ?thesis using r(2) march_steps_Suc[OF True] by simp
  next
    case False
    have "for_t body bound t acc = Some acc"
      by (subst for_t.simps) (simp add: False)
    then show ?thesis using False "1.prems"(2) by (simp add: march_steps_def)
  qed
qed


lemma march_step_cubic:
  assumes "cubic n vol"
    and cells: "\<forall>z y x c. read3 vol z y x = Some c \<longrightarrow> lo \<le> c \<and> c \<le> hi"
    and "lo \<le> 0" "0 \<le> hi"
  shows "\<exists>acc'. march_step vol (real n) cosT sinT uC vC center t acc = Some acc'
      \<and> acc + lo * 0.5 \<le> acc' \<and> acc' \<le> acc + hi * 0.5"
proof (cases "in_bounds (real n) (sample_pos cosT sinT uC vC center t)")
  case True
  obtain x y z where p: "sample_pos cosT sinT uC vC center t = (x, y, z)"
    by (cases "sample_pos cosT sinT uC vC center t") auto
  from interpolate_cubic[OF assms(1) True[unfolded p] cells] obtain c where
    c: "interpolate vol x y z = Some c" "lo \<le> c" "c \<le> hi"
    by blast
  have "march_step vol (real n) cosT sinT uC vC center t acc = Some (acc + c * 0.5)"
    using True c(1) by (simp add: march_step_def Let_def p)
  then show ?thesis using c(2,3) by simp
next
  case False
  then have "march_step vol (real n) cosT sinT uC vC center t acc = Some acc"
    by (simp add: march_step_def Let_def)
  then show ?thesis using assms(3,4) by simp
qed

lemma radonKernel_bounds:
  assumes "cubic n vol"
    and cells: "\<forall>z y x c. read3 vol z y x = Some c \<longrightarrow> lo \<le> c \<and> c \<le> hi"
    and "lo \<le> 0" "0 \<le> hi"
  shows "\<exists>r. radonKernel vol theta n u v = Some r
      \<and> lo * 0.5 * real (march_steps (real n * 0.7) (- real n * 0.7)) \<le> r
      \<and> r \<le> hi * 0.5 * real (march_steps (real n * 0.7) (- real n * 0.7))"
proof -
  define I where "I k acc = (lo * 0.5 * real k \<le> acc \<and> acc \<le> hi * 0.5 * real k)" for k acc
  have step: "\<exists>acc'. march_step vol (real n) cosT sinT uC vC center t acc = Some acc'
      \<and> I (Suc k) acc'" if "I k acc" for cosT sinT uC vC center t k acc
  proof -
    from march_step_cubic[OF assms, of cosT sinT uC vC center t acc] obtain acc' where
      a: "march_step vol (real n) cosT sinT uC vC center t acc = Some acc'"
        "acc + lo * 0.5 \<le> acc'" "acc' \<le> acc + hi * 0.5"
      by blast
    have "I (Suc k) acc'"
      using that a(2,3) unfolding I_def by (simp add: algebra_simps)
    then show ?thesis using a(1) by blast
  qed
  have "I 0 0" by (simp add: I_def)
  from for_t_rule[where I = I, OF step this]
  show ?thesis
    unfolding radonKernel_def Let_def I_def by simp
qed

lemma march_steps_kernel: "0.5 * real (march_steps (real n * 0.7) (- real n * 0.7)) \<le> 1.4 * real n + 0.5"
proof (cases "- real n * 0.7 < real n * 0.7")
  case True
  have "real_of_int \<lceil>(real n * 0.7 - - real n * 0.7) * 2\<rceil> < (real n * 0.7 - - real n * 0.7) * 2 + 1"
    by linarith
  moreover have "0 \<le> \<lceil>(real n * 0.7 - - real n * 0.7) * 2\<rceil>"
    using True by (simp add: ceiling_le_iff le_ceiling_iff)
  ultimately have "real (nat \<lceil>(real n * 0.7 - - real n * 0.7) * 2\<rceil>) < 2.8 * real n + 1"
    by simp
  then show ?thesis using True by (simp add: march_steps_def)
next
  case False
  then show ?thesis by (simp add: march_steps_def)
qed

lemma for_t_count:
  "for_t (\<lambda>t k. Some (Suc k)) bound t 0 = Some (march_steps bound t)"
  using for_t_rule[where I = "\<lambda>k acc. acc = k" and body = "\<lambda>t k. Some (Suc k)" and k = 0
      and acc = 0 and bound = bound and t = t]
  by simp

lemma those_map_Some:
  assumes "\<And>x. x \<in> set xs \<Longrightarrow> \<exists>y. f x = Some y"
  shows "those (map f xs) = Some (map (\<lambda>x. the (f x)) xs)"
  using assms
proof (induction xs)
  case Nil
  then show ?case by simp
next
  case (Cons a xs)
  from Cons.prems[of a] obtain y where y: "f a = Some y" by auto
  have "those (map f xs) = Some (map (\<lambda>x. the (f x)) xs)"
    using Cons.prems by (intro Cons.IH) auto
  then show ?case using y by simp
qed

lemma read3_zero_cells:
  "\<forall>z y x c. read3 (zero_volume n) z y x = Some c \<longrightarrow> 0 \<le> c \<and> c \<le> 0"
  unfolding read3_zero_volume by (simp split: if_splits)

lemma radonKernel_defined:
  assumes "cubic n vol"
  shows "\<exists>r. radonKernel vol theta n u v = Some r"
proof -
  define cs where "cs = concat (concat vol)"
  define lo where "lo = min 0 (Min (set (0 # cs)))"
  define hi where "hi = max 0 (Max (set (0 # cs)))"
  have cells: "\<forall>z y x c. read3 vol z y x = Some c \<longrightarrow> lo \<le> c \<and> c \<le> hi"
  proof (intro allI impI)
    fix z y x c assume that: "read3 vol z y x = Some c"
    have iv: "in_volume vol z y x" and c: "c = vol ! nat z ! nat y ! nat x"
      using that by (auto simp: read3_def split: if_splits)
    have n: "nat z < length vol" "nat y < length (vol ! nat z)"
      "nat x < length (vol ! nat z ! nat y)"
      using iv by (auto simp: in_volume_def)
    have "vol ! nat z \<in> set vol" using n(1) by (rule nth_mem)
    moreover have "vol ! nat z ! nat y \<in> set (vol ! nat z)" using n(2) by (rule nth_mem)
    moreover have "c \<in> set (vol ! nat z ! nat y)" unfolding c using n(3) by (rule nth_mem)
    ultimately have "c \<in> set (0 # cs)" unfolding cs_def by auto
    then have "Min (set (0 # cs)) \<le> c" "c \<le> Max (set (0 # cs))"
      by (simp_all del: set_simps)
    then show "lo \<le> c \<and> c \<le> hi" unfolding lo_def hi_def by simp
  qed
  have "lo \<le> 0" "0 \<le> hi" unfolding lo_def hi_def by simp_all
  from radonKernel_bounds[OF assms cells this] show ?thesis by blast
qed

lemma radonKernel_zero_volume: "radonKernel (zero_volume n) theta n u v = Some 0"
proof -
  from radonKernel_bounds[OF cubic_zero_volume read3_zero_cells, where theta = theta
      and u = u and v = v and n = n]
  obtain r where "radonKernel (zero_volume n) theta n u v = Some r" "0 \<le> r" "r \<le> 0"
    by auto
  then show ?thesis by simp
qed

text \<open>
  C6. On a volume of side \<open>N\<close>: a march sample whose position has a coordinate outside
  \<open>[0, N - 1)\<close> leaves the accumulated sum as it is (it contributes exactly \<open>0\<close> and
  reads nothing); the kernel returns a number for every angle and every pixel, so no
  read falls outside the grid (such a read would make the model return \<open>None\<close>); and
  the projection of the all-zero volume is all zero, for every angle.
\<close>

theorem out_of_volume_samples:
  assumes "cubic n volume"
  shows "(\<forall>cosTheta sinTheta uCentered vCentered center t lineIntegral.
           \<not> in_bounds (real n) (sample_pos cosTheta sinTheta uCentered vCentered center t) \<longrightarrow>
           march_step volume (real n) cosTheta sinTheta uCentered vCentered center t lineIntegral
             = Some lineIntegral)
       \<and> (\<forall>theta u v. \<exists>r. radonKernel volume theta n u v = Some r)
       \<and> (\<forall>theta u v. radonKernel (zero_volume n) theta n u v = Some 0)
       \<and> (\<forall>theta. runKernel n (zero_volume n) theta n = Some (replicate n (replicate n 0)))"
proof (intro conjI allI impI)
  fix cosTheta sinTheta uCentered vCentered center t lineIntegral
  assume "\<not> in_bounds (real n) (sample_pos cosTheta sinTheta uCentered vCentered center t)"
  then show "march_step volume (real n) cosTheta sinTheta uCentered vCentered center t lineIntegral
             = Some lineIntegral"
    by (simp add: march_step_def Let_def)
next
  fix theta u v
  show "\<exists>r. radonKernel volume theta n u v = Some r"
    by (rule radonKernel_defined[OF assms])
  show "radonKernel (zero_volume n) theta n u v = Some 0"
    by (rule radonKernel_zero_volume)
next
  fix theta
  have row: "those (map (\<lambda>u. radonKernel (zero_volume n) theta n u v) [0..<n])
      = Some (replicate n 0)" for v
  proof -
    have "those (map (\<lambda>u. radonKernel (zero_volume n) theta n u v) [0..<n])
        = Some (map (\<lambda>u. the (radonKernel (zero_volume n) theta n u v)) [0..<n])"
      by (rule those_map_Some) (simp add: radonKernel_zero_volume)
    then show ?thesis by (simp add: radonKernel_zero_volume map_replicate_const)
  qed
  have "those (map (\<lambda>v::nat. Some (replicate n (0::real))) [0..<n])
      = Some (map (\<lambda>v. the (Some (replicate n 0))) [0..<n])"
    by (rule those_map_Some) simp
  then show "runKernel n (zero_volume n) theta n = Some (replicate n (replicate n 0))"
    unfolding runKernel_def row by (simp add: map_replicate_const)
qed

theorem out_of_volume_samples_witness:
  "march_step (zero_volume 2) 2 1 0 5 0 1 0 7 = Some 7
   \<and> radonKernel (zero_volume 2) 90 2 1 1 = Some 0
   \<and> runKernel 2 (zero_volume 2) 45 2 = Some [[0, 0], [0, 0]]"
proof -
  have "\<not> in_bounds (real 2) (sample_pos 1 0 5 0 1 0)"
    by (simp add: in_bounds_def sample_pos_def)
  then show ?thesis
    using out_of_volume_samples[OF cubic_zero_volume, of 2]
    by (simp add: numeral_2_eq_2)
qed

text \<open>
  C9. On a volume of side \<open>N\<close> whose cells all lie in \<open>[0, 1]\<close>, every trilinearly
  interpolated sample of the kernel lies in \<open>[0, 1]\<close>; so every raw pixel is
  non-negative and at most \<open>0.5\<close> times the number of march steps (the number of
  iterations of the loop, \<open>march_steps\<close>), hence at most \<open>1.4 N + 0.5\<close>.
\<close>

theorem kernel_bounds:
  assumes "cubic n volume" "unit_cells volume"
  shows "(\<forall>x y z. in_bounds (real n) (x, y, z) \<longrightarrow>
           (\<exists>c. interpolate volume x y z = Some c \<and> 0 \<le> c \<and> c \<le> 1))
       \<and> for_t (\<lambda>t k. Some (Suc k)) (real n * 0.7) (- real n * 0.7) 0
           = Some (march_steps (real n * 0.7) (- real n * 0.7))
       \<and> (\<exists>r. radonKernel volume theta n u v = Some r \<and> 0 \<le> r
             \<and> r \<le> 0.5 * real (march_steps (real n * 0.7) (- real n * 0.7))
             \<and> r \<le> 1.4 * real n + 0.5)"
proof (intro conjI allI impI)
  fix x y z assume "in_bounds (real n) (x, y, z)"
  then show "\<exists>c. interpolate volume x y z = Some c \<and> 0 \<le> c \<and> c \<le> 1"
    using interpolate_cubic[OF assms(1) _ read3_unit_cells[OF assms(2)]] by blast
next
  show "for_t (\<lambda>t k. Some (Suc k)) (real n * 0.7) (- real n * 0.7) 0
           = Some (march_steps (real n * 0.7) (- real n * 0.7))"
    by (rule for_t_count)
next
  from radonKernel_bounds[OF assms(1) read3_unit_cells[OF assms(2)], where theta = theta and u = u and v = v]
  obtain r where r: "radonKernel volume theta n u v = Some r" "0 \<le> r"
    "r \<le> 0.5 * real (march_steps (real n * 0.7) (- real n * 0.7))"
    by auto
  then have "r \<le> 1.4 * real n + 0.5" using march_steps_kernel[of n] by linarith
  then show "\<exists>r. radonKernel volume theta n u v = Some r \<and> 0 \<le> r
             \<and> r \<le> 0.5 * real (march_steps (real n * 0.7) (- real n * 0.7))
             \<and> r \<le> 1.4 * real n + 0.5"
    using r by blast
qed

theorem kernel_bounds_witness:
  "(\<exists>c. interpolate [[[1, 1 / 2], [0, 1]], [[1, 1], [1 / 4, 1]]] (1 / 2) (1 / 4) (3 / 4) = Some c
       \<and> 0 \<le> c \<and> c \<le> 1)
   \<and> (\<exists>r. radonKernel [[[1, 1 / 2], [0, 1]], [[1, 1], [1 / 4, 1]]] 30 2 0 0 = Some r
       \<and> 0 \<le> r \<and> r \<le> 1.4 * 2 + 0.5)"
proof -
  have c: "cubic 2 [[[1, 1 / 2], [0, 1]], [[1, 1], [1 / 4, 1]]]"
    by (simp add: cubic_def)
  have u: "unit_cells [[[1, 1 / 2], [0, 1]], [[1, 1], [1 / 4, 1]]]"
    by (simp add: unit_cells_def)
  have b: "in_bounds (real 2) (1 / 2, 1 / 4, 3 / 4)"
    by (simp add: in_bounds_def)
  note k = kernel_bounds[OF c u, of 30 0 0]
  have "\<exists>c. interpolate [[[1, 1 / 2], [0, 1]], [[1, 1], [1 / 4, 1]]] (1 / 2) (1 / 4) (3 / 4) = Some c
       \<and> 0 \<le> c \<and> c \<le> 1"
    using k[THEN conjunct1, rule_format, OF b] .
  moreover have "\<exists>r. radonKernel [[[1, 1 / 2], [0, 1]], [[1, 1], [1 / 4, 1]]] 30 2 0 0 = Some r
       \<and> 0 \<le> r \<and> r \<le> 1.4 * 2 + 0.5"
    using k[THEN conjunct2, THEN conjunct2] by auto
  ultimately show ?thesis by (rule conjI)
qed

section \<open>Rounding\<close>

lemma pow2_powr: "pow2 e = 2 powr (real_of_int e)"
proof (cases "0 \<le> e")
  case True
  have "(2::real) powr real_of_int e = 2 powr real (nat e)" using True by simp
  also have "\<dots> = 2 ^ nat e" by (rule powr_realpow) simp
  finally show ?thesis using True by (simp add: pow2_def)
next
  case False
  have "(2::real) powr real_of_int e = 2 powr (- real (nat (- e)))" using False by simp
  also have "\<dots> = inverse (2 powr real (nat (- e)))" by (rule powr_minus)
  also have "2 powr real (nat (- e)) = (2::real) ^ nat (- e)" by (rule powr_realpow) simp
  finally show ?thesis using False by (simp add: pow2_def inverse_eq_divide)
qed

lemma pow2_pos: "0 < pow2 e"
  by (simp add: pow2_powr)

lemma pow2_add: "pow2 (a + b) = pow2 a * pow2 b"
  by (simp add: pow2_powr powr_add)

lemma pow2_mono: "a \<le> b \<Longrightarrow> pow2 a \<le> pow2 b"
  by (simp add: pow2_powr)

lemma exponent_bounds:
  assumes "0 < x"
  shows "pow2 \<lfloor>log 2 x\<rfloor> \<le> x" "x < pow2 (\<lfloor>log 2 x\<rfloor> + 1)"
proof -
  have "real_of_int \<lfloor>log 2 x\<rfloor> \<le> log 2 x" by simp
  then have "2 powr real_of_int \<lfloor>log 2 x\<rfloor> \<le> 2 powr log 2 x" by simp
  then show "pow2 \<lfloor>log 2 x\<rfloor> \<le> x" using assms by (simp add: pow2_powr)
  have "log 2 x < real_of_int (\<lfloor>log 2 x\<rfloor> + 1)" by linarith
  then have "2 powr log 2 x < 2 powr real_of_int (\<lfloor>log 2 x\<rfloor> + 1)" by simp
  then show "x < pow2 (\<lfloor>log 2 x\<rfloor> + 1)" using assms by (simp add: pow2_powr)
qed

lemma exponent_unique:
  assumes "pow2 e \<le> x" "x < pow2 (e + 1)"
  shows "\<lfloor>log 2 x\<rfloor> = e"
proof -
  have x: "0 < x" using assms(1) pow2_pos[of e] by linarith
  have "2 powr real_of_int e \<le> 2 powr log 2 x" using assms(1) x by (simp add: pow2_powr)
  then have 1: "real_of_int e \<le> log 2 x" by simp
  have "2 powr log 2 x < 2 powr real_of_int (e + 1)" using assms(2) x by (simp add: pow2_powr)
  then have 2: "log 2 x < real_of_int (e + 1)" by simp
  show ?thesis using 1 2 by linarith
qed

lemma round_even_error: "\<bar>real_of_int (round_even r) - r\<bar> \<le> 1 / 2"
  unfolding round_even_def by (auto simp: abs_if) linarith+

lemma double_round_eval:
  assumes "pow2 e \<le> \<bar>x\<bar>" "\<bar>x\<bar> < pow2 (e + 1)" "- 1022 \<le> e"
  shows "double_round x = of_int (round_even (x / pow2 (e - 52))) * pow2 (e - 52)"
proof -
  have "x \<noteq> 0" using assms(1) pow2_pos[of e] by auto
  moreover have "\<lfloor>log 2 \<bar>x\<bar>\<rfloor> = e" by (rule exponent_unique[OF assms(1,2)])
  ultimately show ?thesis using assms(3) by (simp add: double_round_def Let_def max_def)
qed

lemma double_round_error:
  assumes "pow2 (- 1022) \<le> x"
  shows "\<bar>double_round x - x\<bar> \<le> x / 2 ^ 53"
proof -
  have x: "0 < x" using assms pow2_pos[of "- 1022"] by linarith
  define e where "e = \<lfloor>log 2 x\<rfloor>"
  have b: "pow2 e \<le> x" "x < pow2 (e + 1)" unfolding e_def by (rule exponent_bounds[OF x])+
  have "pow2 (- 1022) < pow2 (e + 1)" using assms b(2) by linarith
  then have "- 1022 < e + 1" using pow2_mono[of "e + 1" "- 1022"] by (cases "- 1022 < e + 1") auto
  then have e: "- 1022 \<le> e" by simp
  define ulp where "ulp = pow2 (e - 52)"
  have ulp: "0 < ulp" unfolding ulp_def by (rule pow2_pos)
  have dr: "double_round x = of_int (round_even (x / ulp)) * ulp"
    unfolding ulp_def using b x e by (intro double_round_eval) simp_all
  have "double_round x - x = (of_int (round_even (x / ulp)) - x / ulp) * ulp"
    using ulp by (simp add: dr field_simps)
  then have "\<bar>double_round x - x\<bar> = \<bar>of_int (round_even (x / ulp)) - x / ulp\<bar> * ulp"
    using ulp by (simp add: abs_mult)
  also have "\<dots> \<le> 1 / 2 * ulp"
    using round_even_error[of "x / ulp"] ulp by (intro mult_right_mono) simp_all
  also have "\<dots> = pow2 e / 2 ^ 53"
    using pow2_add[of "e - 52" 52] unfolding ulp_def by (simp add: pow2_def[of 52])
  also have "\<dots> \<le> x / 2 ^ 53" using b(1) by (simp add: divide_right_mono)
  finally show ?thesis .
qed

lemma double_round_11_36: "double_round (11 / 36) = 5504399544563940 / 2 ^ 54"
  by (subst double_round_eval[where e = "- 2"]) (simp_all add: pow2_def round_even_def)

lemma projection_angle_36_11: "projection_angle 36 11 = 110 + 1 / 2 ^ 46"
  unfolding projection_angle_def
  apply (simp add: double_round_11_36)
  by (subst double_round_eval[where e = "6"]) (simp_all add: pow2_def round_even_def)

lemma double_round_0: "double_round 0 = 0"
  by (simp add: double_round_def)

lemma projection_angle_4: "projection_angle 4 0 = 0" "projection_angle 4 1 = 90" "projection_angle 4 2 = 180"
  "projection_angle 4 3 = 270"
proof -
  have q: "double_round (1 / 4) = 1 / 4" "double_round (1 / 2) = 1 / 2" "double_round (3 / 4) = 3 / 4"
    by (subst double_round_eval[where e = "- 2"], simp_all add: pow2_def round_even_def)
       (subst double_round_eval[where e = "- 1"], simp_all add: pow2_def round_even_def)+
  have a: "double_round 90 = 90" "double_round 180 = 180" "double_round 270 = 270"
    by (subst double_round_eval[where e = 6], simp_all add: pow2_def round_even_def)
       (subst double_round_eval[where e = 7], simp_all add: pow2_def round_even_def,
        subst double_round_eval[where e = 8], simp_all add: pow2_def round_even_def)
  show "projection_angle 4 0 = 0" "projection_angle 4 1 = 90" "projection_angle 4 2 = 180"
    "projection_angle 4 3 = 270"
    by (simp_all add: projection_angle_def double_round_0 q a)
qed


lemma projection_angle_4_Suc: "projection_angle 4 (Suc 0) = 90"
  using projection_angle_4(2) by simp

lemma double_round_between:
  assumes "pow2 (- 1022) \<le> x"
  shows "x * (1 - 1 / 2 ^ 53) \<le> double_round x" "double_round x \<le> x * (1 + 1 / 2 ^ 53)"
proof -
  have "\<bar>double_round x - x\<bar> \<le> x / 2 ^ 53" by (rule double_round_error[OF assms])
  then have "x - x / 2 ^ 53 \<le> double_round x" "double_round x \<le> x + x / 2 ^ 53" by linarith+
  then show "x * (1 - 1 / 2 ^ 53) \<le> double_round x" "double_round x \<le> x * (1 + 1 / 2 ^ 53)"
    by (simp_all add: algebra_simps)
qed

lemma pow2_tiny: "pow2 (- 1022) \<le> 1 / 2 ^ 60"
proof -
  have "pow2 (- 1022) \<le> pow2 (- 60)" by (rule pow2_mono) simp
  then show ?thesis by (simp add: pow2_def)
qed

lemma projection_angle_0: "projection_angle m 0 = 0"
  by (simp add: projection_angle_def double_round_0)

lemma projection_angle_between:
  assumes "0 < i" "i < m" "m \<le> 2 ^ 50"
  shows "real i / real m * 360 * (1 - 1 / 2 ^ 53)\<^sup>2 \<le> projection_angle m i"
    and "projection_angle m i \<le> real i / real m * 360 * (1 + 1 / 2 ^ 53)\<^sup>2"
proof -
  define x where "x = real i / real m"
  define q where "q = double_round x"
  have m: "0 < real m" "real m \<le> 2 ^ 50" using assms by (simp_all add: of_nat_le_iff[of m "2 ^ 50", unfolded of_nat_power of_nat_numeral])
  have "1 / real m \<le> x" unfolding x_def using assms(1) m(1) by (simp add: divide_right_mono)
  moreover have "1 / 2 ^ 50 \<le> 1 / real m" using m by (simp add: frac_le)
  ultimately have x50: "1 / 2 ^ 50 \<le> x" by linarith
  have t: "(1 / 2 ^ 60 :: real) \<le> 1 / 2 ^ 50" by simp
  have xn: "pow2 (- 1022) \<le> x" using x50 t pow2_tiny by linarith
  have "(0::real) < 1 / 2 ^ 50" by simp
  then have xpos: "0 < x" using x50 by linarith
  have q: "x * (1 - 1 / 2 ^ 53) \<le> q" "q \<le> x * (1 + 1 / 2 ^ 53)"
    unfolding q_def by (rule double_round_between[OF xn])+
  have "x * (1 / 2) \<le> x * (1 - 1 / 2 ^ 53)" using xpos by (intro mult_left_mono) simp_all
  then have "1 / 2 ^ 51 \<le> q" using q(1) x50 by simp
  then have "1 / 2 ^ 60 \<le> q * 360" by simp
  then have qn: "pow2 (- 1022) \<le> q * 360" using pow2_tiny by linarith
  have "(0::real) < 1 / 2 ^ 51" by simp
  then have qpos: "0 < q" using \<open>1 / 2 ^ 51 \<le> q\<close> by linarith
  have a: "q * 360 * (1 - 1 / 2 ^ 53) \<le> projection_angle m i"
    "projection_angle m i \<le> q * 360 * (1 + 1 / 2 ^ 53)"
    unfolding projection_angle_def x_def[symmetric] q_def[symmetric]
    by (rule double_round_between[OF qn])+
  have "x * (1 - 1 / 2 ^ 53) * (360 * (1 - 1 / 2 ^ 53)) \<le> q * (360 * (1 - 1 / 2 ^ 53))"
    by (rule mult_right_mono[OF q(1)]) simp
  then show "real i / real m * 360 * (1 - 1 / 2 ^ 53)\<^sup>2 \<le> projection_angle m i"
    using a(1) unfolding x_def[symmetric] power2_eq_square by (simp add: algebra_simps)
  have "q * (360 * (1 + 1 / 2 ^ 53)) \<le> x * (1 + 1 / 2 ^ 53) * (360 * (1 + 1 / 2 ^ 53))"
    by (rule mult_right_mono[OF q(2)]) simp
  then show "projection_angle m i \<le> real i / real m * 360 * (1 + 1 / 2 ^ 53)\<^sup>2"
    using a(2) unfolding x_def[symmetric] power2_eq_square by (simp add: algebra_simps)
qed

lemma projection_angle_error:
  assumes "i < m" "m \<le> 2 ^ 50"
  shows "\<bar>projection_angle m i - real i / real m * 360\<bar> \<le> real i / real m * 360 * (3 / 2 ^ 53)"
proof (cases "i = 0")
  case True
  then show ?thesis by (simp add: projection_angle_0)
next
  case False
  then have i: "0 < i" by simp
  define x where "x = real i / real m * 360"
  have x: "0 \<le> x" unfolding x_def by simp
  note b = projection_angle_between[OF i assms, folded x_def]
  have "x * (1 - 2 / 2 ^ 53) \<le> x * (1 - 1 / 2 ^ 53)\<^sup>2"
    by (rule mult_left_mono[OF _ x]) (simp add: power2_eq_square)
  moreover have "x * (1 + 1 / 2 ^ 53)\<^sup>2 \<le> x * (1 + 3 / 2 ^ 53)"
    by (rule mult_left_mono[OF _ x]) (simp add: power2_eq_square)
  ultimately have "x * (1 - 2 / 2 ^ 53) \<le> projection_angle m i"
    "projection_angle m i \<le> x * (1 + 3 / 2 ^ 53)"
    using b by linarith+
  then have "x - x * (2 / 2 ^ 53) \<le> projection_angle m i"
    "projection_angle m i \<le> x + x * (3 / 2 ^ 53)"
    by (simp_all add: algebra_simps)
  moreover have "x * (2 / 2 ^ 53) \<le> x * (3 / 2 ^ 53)"
    by (rule mult_left_mono[OF _ x]) simp
  ultimately show ?thesis unfolding x_def[symmetric] by linarith
qed

lemma projection_angle_strict:
  assumes "i < j" "j < m" "m \<le> 2 ^ 50"
  shows "projection_angle m i < projection_angle m j"
proof -
  have m: "0 < real m" using assms by simp
  have jpos: "0 < j" using assms(1) by simp
  note bj = projection_angle_between(1)[OF jpos assms(2,3)]
  show ?thesis
  proof (cases "i = 0")
    case True
    have "0 < real j / real m * 360 * (1 - 1 / 2 ^ 53)\<^sup>2"
      using jpos m by simp
    then show ?thesis using bj True by (simp add: projection_angle_0)
  next
    case False
    then have ipos: "0 < i" by simp
    have im: "i < m" using assms by simp
    note bi = projection_angle_between(2)[OF ipos im assms(3)]
    have "i < 2 ^ 50" using im assms(3) by simp
    then have i50: "real i < 2 ^ 50"
      by (metis of_nat_less_iff of_nat_numeral of_nat_power)
    have ij: "real i + 1 \<le> real j" using assms(1) by linarith
    have c1: "(1 + 1 / 2 ^ 53)\<^sup>2 - (1 - 1 / 2 ^ 53)\<^sup>2 = (4 / 2 ^ 53 :: real)"
      by (simp add: power2_eq_square algebra_simps)
    have c2: "(1 / 2 :: real) < (1 - 1 / 2 ^ 53)\<^sup>2"
      by (simp add: power2_eq_square)
    have "real i * (4 / 2 ^ 53) < 2 ^ 50 * (4 / 2 ^ 53)"
      using i50 by (intro mult_strict_right_mono) simp_all
    then have "real i * (4 / 2 ^ 53) < 1 / 2" by simp
    then have "real i * ((1 + 1 / 2 ^ 53)\<^sup>2 - (1 - 1 / 2 ^ 53)\<^sup>2) < (1 - 1 / 2 ^ 53)\<^sup>2"
      unfolding c1 using c2 by linarith
    then have "real i * (1 + 1 / 2 ^ 53)\<^sup>2 < (real i + 1) * (1 - 1 / 2 ^ 53)\<^sup>2"
      by (simp add: algebra_simps)
    also have "\<dots> \<le> real j * (1 - 1 / 2 ^ 53)\<^sup>2"
      by (rule mult_right_mono[OF ij]) simp
    finally have "real i * (1 + 1 / 2 ^ 53)\<^sup>2 < real j * (1 - 1 / 2 ^ 53)\<^sup>2" .
    then have "real i * (1 + 1 / 2 ^ 53)\<^sup>2 * (360 / real m)
        < real j * (1 - 1 / 2 ^ 53)\<^sup>2 * (360 / real m)"
      using m by (intro mult_strict_right_mono) simp_all
    then have "real i / real m * 360 * (1 + 1 / 2 ^ 53)\<^sup>2
        < real j / real m * 360 * (1 - 1 / 2 ^ 53)\<^sup>2"
      by (simp add: algebra_simps)
    then show ?thesis using bi bj by linarith
  qed
qed

section \<open>generateProjections\<close>

lemma runKernel_cubic:
  assumes "cubic n vol"
  shows "runKernel n vol theta n = Some (raw_projection n vol theta)"
proof -
  have row: "those (map (\<lambda>u. radonKernel vol theta n u v) [0..<n])
      = Some (map (\<lambda>u. the (radonKernel vol theta n u v)) [0..<n])" for v
    by (rule those_map_Some) (rule radonKernel_defined[OF assms])
  have "those (map (\<lambda>v. Some (map (\<lambda>u. the (radonKernel vol theta n u v)) [0..<n])) [0..<n])
      = Some (map (\<lambda>v. the (Some (map (\<lambda>u. the (radonKernel vol theta n u v)) [0..<n]))) [0..<n])"
    by (rule those_map_Some) simp
  then show ?thesis
    unfolding runKernel_def row raw_projection_def by simp
qed

lemma forEach_generate:
  assumes "cubic n vol"
  shows "forEach (generate_step vol n m) is acc = Some (acc @ raw_projections n m vol is)"
proof (induction "is" arbitrary: acc)
  case Nil
  then show ?case by (simp add: raw_projections_def)
next
  case (Cons i "is")
  have "generate_step vol n m i acc = Some (acc @ raw_projections n m vol [i])"
    by (simp add: generate_step_def Let_def runKernel_cubic[OF assms] raw_projections_def
        projection_angle_def)
  then show ?case
    by (simp add: Cons.IH raw_projections_def)
qed

lemma generateProjections_cubic:
  assumes "cubic n vol"
  shows "generateProjections n m vol = Some (normalizeProjections (raw_projections n m vol [0..<m]))"
  by (simp add: generateProjections_def forEach_generate[OF assms])

lemma normalize_angles: "map angle (normalizeProjections ps) = map angle ps"
  by (simp add: normalizeProjections_def Let_def comp_def)

lemma angles_raw: "map angle (raw_projections n m vol is) = map (projection_angle m) is"
  by (simp add: raw_projections_def comp_def)

lemma generate_angles:
  assumes "cubic n vol"
  shows "\<exists>ps. generateProjections n m vol = Some ps
     \<and> map angle ps = map (projection_angle m) [0..<m]"
  by (simp add: generateProjections_cubic[OF assms] normalize_angles angles_raw)

text \<open>
  C7 (as stated). The angle of projection \<open>i\<close> is not \<open>i / M * 360\<close> exactly: the
  program computes it in double precision. With \<open>M = 36\<close> projections the angle of
  projection \<open>11\<close> is \<open>110 + 2\<^sup>-\<^sup>4\<^sup>6\<close> (printed \<open>110.00000000000001\<close>), not \<open>110\<close>.
\<close>

theorem angle_exact_counterexample:
  "\<exists>ps. generateProjections 2 36 (zero_volume 2) = Some ps
     \<and> angle (ps ! 11) = 110 + 1 / 2 ^ 46
     \<and> angle (ps ! 11) \<noteq> real 11 / real 36 * 360"
proof -
  from generate_angles[OF cubic_zero_volume, of 2 36] obtain ps where
    ps: "generateProjections 2 36 (zero_volume 2) = Some ps"
      "map angle ps = map (projection_angle 36) [0..<36]"
    by (elim exE conjE)
  have len: "length ps = 36" using arg_cong[OF ps(2), of length] by simp
  have "angle (ps ! 11) = map angle ps ! 11" using len by simp
  also have "\<dots> = projection_angle 36 11" unfolding ps(2) by (subst nth_map) simp_all
  finally have a: "angle (ps ! 11) = 110 + 1 / 2 ^ 46"
    by (simp only: projection_angle_36_11)
  then have "angle (ps ! 11) \<noteq> real 11 / real 36 * 360" by simp
  then show ?thesis using ps(1) a by blast
qed

text \<open>
  C7 (amended). For every projection count \<open>M\<close> up to \<open>2\<^sup>5\<^sup>0\<close>, on a volume of side
  \<open>N\<close>, the pipeline returns \<open>M\<close> projections; the angle of projection \<open>i\<close> is the
  double-precision value of \<open>(i / M) * 360\<close>, the quotient and the product each rounded
  to the nearest double, which is within the relative error \<open>3 / 2\<^sup>5\<^sup>3\<close> of the exact
  \<open>i / M * 360\<close>; the angles are strictly increasing and the first one is \<open>0\<close>.
\<close>

theorem angle_coverage:
  assumes "cubic n volume" and "m \<le> 2 ^ 50"
  shows "\<exists>ps. generateProjections n m volume = Some ps \<and> length ps = m
     \<and> (\<forall>i<m. angle (ps ! i) = double_round (double_round (real i / real m) * 360)
            \<and> \<bar>angle (ps ! i) - real i / real m * 360\<bar> \<le> real i / real m * 360 * (3 / 2 ^ 53))
     \<and> sorted_wrt (<) (map angle ps)
     \<and> (0 < m \<longrightarrow> angle (ps ! 0) = 0)"
proof -
  from generate_angles[OF assms(1), of m] obtain ps where
    gen: "generateProjections n m volume = Some ps"
    and angles: "map angle ps = map (projection_angle m) [0..<m]"
    by (elim exE conjE)
  have len: "length ps = m"
    using arg_cong[OF angles, of length] by simp
  have nth: "angle (ps ! i) = projection_angle m i" if "i < m" for i
  proof -
    have "angle (ps ! i) = map angle ps ! i" using that len by simp
    also have "\<dots> = projection_angle m i" unfolding angles using that by simp
    finally show ?thesis .
  qed
  have each: "\<forall>i<m. angle (ps ! i) = double_round (double_round (real i / real m) * 360)
            \<and> \<bar>angle (ps ! i) - real i / real m * 360\<bar> \<le> real i / real m * 360 * (3 / 2 ^ 53)"
  proof (intro allI impI conjI)
    fix i assume i: "i < m"
    show "angle (ps ! i) = double_round (double_round (real i / real m) * 360)"
      unfolding nth[OF i] by (rule projection_angle_def)
    show "\<bar>angle (ps ! i) - real i / real m * 360\<bar> \<le> real i / real m * 360 * (3 / 2 ^ 53)"
      unfolding nth[OF i] by (rule projection_angle_error[OF i assms(2)])
  qed
  have sorted: "sorted_wrt (<) (map angle ps)"
    unfolding sorted_wrt_iff_nth_less
  proof (intro allI impI)
    fix i j assume ij: "i < j" "j < length (map angle ps)"
    then have jm: "j < m" and im: "i < m" using len by simp_all
    have "projection_angle m i < projection_angle m j"
      by (rule projection_angle_strict[OF ij(1) jm assms(2)])
    then show "map angle ps ! i < map angle ps ! j"
      using im jm len nth by simp
  qed
  have first: "0 < m \<longrightarrow> angle (ps ! 0) = 0"
    using nth[of 0] by (simp add: projection_angle_0)
  show ?thesis
    by (intro exI[of _ ps] conjI) (rule gen len each sorted first)+
qed

theorem angle_coverage_witness:
  "\<exists>ps. generateProjections 2 4 (zero_volume 2) = Some ps \<and> length ps = 4
     \<and> angle (ps ! 0) = 0 \<and> angle (ps ! 1) = 90 \<and> angle (ps ! 2) = 180 \<and> angle (ps ! 3) = 270
     \<and> angle (ps ! 0) < angle (ps ! 1)"
proof -
  have m: "(4::nat) \<le> 2 ^ 50" by simp
  from angle_coverage[OF cubic_zero_volume m, of 2] obtain ps where
    ps: "generateProjections 2 4 (zero_volume 2) = Some ps" "length ps = 4"
    and each: "\<forall>i<4. angle (ps ! i) = double_round (double_round (real i / real 4) * 360)
            \<and> \<bar>angle (ps ! i) - real i / real 4 * 360\<bar> \<le> real i / real 4 * 360 * (3 / 2 ^ 53)"
    by (elim exE conjE)
  have a: "angle (ps ! i) = projection_angle 4 i" if "i < 4" for i
    using each[rule_format, OF that, THEN conjunct1] by (simp add: projection_angle_def)
  have "angle (ps ! 0) = 0" "angle (ps ! 1) = 90" "angle (ps ! 2) = 180" "angle (ps ! 3) = 270"
    by (simp_all add: a projection_angle_4 projection_angle_4_Suc)
  then show ?thesis using ps by simp
qed

section \<open>The cube through the pipeline\<close>


lemma for_t_unroll:
  assumes "t < bound" "body t acc = Some acc'"
  shows "for_t body bound t acc = for_t body bound (t + 0.5) acc'"
  by (subst for_t.simps) (use assms in simp)

lemma for_t_lower:
  fixes body :: "real \<Rightarrow> real \<Rightarrow> real option"
  assumes mono: "\<And>t acc. \<exists>acc'. body t acc = Some acc' \<and> acc \<le> acc'"
    and hit: "\<And>acc. \<exists>acc'. body (t0 + real k / 2) acc = Some acc' \<and> acc + d \<le> acc'"
    and "t0 + real k / 2 < bound"
  shows "\<exists>r. for_t body bound t0 acc0 = Some r \<and> acc0 + d \<le> r"
  using hit assms(3)
proof (induction k arbitrary: t0 acc0)
  case 0
  from "0.prems"(1)[of acc0] obtain acc' where
    a: "body t0 acc0 = Some acc'" "acc0 + d \<le> acc'" by auto
  have lt: "t0 < bound" using "0.prems"(2) by simp
  have step: "\<exists>b'. body t b = Some b' \<and> acc' \<le> b'" if "acc' \<le> b" for t j b
    using mono[of t b] that by force
  from for_t_rule[where I = "\<lambda>j b. acc' \<le> b" and body = body and k = 0 and acc = acc'
      and bound = bound and t = "t0 + 0.5", OF step]
  obtain r where "for_t body bound (t0 + 0.5) acc' = Some r" "acc' \<le> r" by auto
  then show ?case
    using for_t_unroll[where body = body, OF lt a(1)] a(2) by auto
next
  case (Suc k)
  have "0 \<le> real (Suc k) / 2" by simp
  then have lt: "t0 < bound" using Suc.prems(2) by linarith
  from mono[of t0 acc0] obtain acc1 where a: "body t0 acc0 = Some acc1" "acc0 \<le> acc1" by auto
  have eq: "t0 + 0.5 + real k / 2 = t0 + real (Suc k) / 2" by simp
  have "\<exists>r. for_t body bound (t0 + 0.5) acc1 = Some r \<and> acc1 + d \<le> r"
  proof (rule Suc.IH)
    show "\<exists>acc'. body (t0 + 0.5 + real k / 2) acc = Some acc' \<and> acc + d \<le> acc'" for acc
      unfolding eq by (rule Suc.prems(1))
    show "t0 + 0.5 + real k / 2 < bound" unfolding eq by (rule Suc.prems(2))
  qed
  then obtain r where "for_t body bound (t0 + 0.5) acc1 = Some r" "acc1 + d \<le> r" by auto
  then show ?case
    using for_t_unroll[where body = body, OF lt a(1)] a(2) by auto
qed

lemma radonKernel_cos_sin:
  assumes "cos (theta * (pi / 180)) = c" "sin (theta * (pi / 180)) = s"
  shows "radonKernel vol theta n u v =
     for_t (march_step vol (real n) c s (real u - real n / 2) (real v - real n / 2) (real n / 2))
       (real n * 0.7) (- real n * 0.7) 0"
  using assms by (simp add: radonKernel_def Let_def)

lemma interpolate_const:
  assumes "\<And>k j i. k = \<lfloor>z\<rfloor> \<or> k = \<lfloor>z\<rfloor> + 1 \<Longrightarrow> j = \<lfloor>y\<rfloor> \<or> j = \<lfloor>y\<rfloor> + 1 \<Longrightarrow>
      i = \<lfloor>x\<rfloor> \<or> i = \<lfloor>x\<rfloor> + 1 \<Longrightarrow> read3 vol k j i = Some a"
  shows "interpolate vol x y z = Some a"
proof -
  have "\<exists>c. interpolate vol x y z = Some c \<and> a \<le> c \<and> c \<le> a"
    by (rule interpolate_local[where lo = a and hi = a,
          OF assms order_refl order_refl assms order_refl order_refl
             assms order_refl order_refl assms order_refl order_refl
             assms order_refl order_refl assms order_refl order_refl
             assms order_refl order_refl assms order_refl order_refl]) simp_all
  then show ?thesis by auto
qed

lemma is_cube64_cubic: "is_cube64 model \<Longrightarrow> cubic 64 model"
  by (simp add: is_cube64_def)

lemma is_cube64_read:
  "is_cube64 model \<Longrightarrow> read3 model z y x =
          (if 19 \<le> z \<and> z < 44 \<and> 19 \<le> y \<and> y < 44 \<and> 19 \<le> x \<and> x < 44 then Some 1
           else if 0 \<le> z \<and> z < 64 \<and> 0 \<le> y \<and> y < 64 \<and> 0 \<le> x \<and> x < 64 then Some 0
           else None)"
  by (simp add: is_cube64_def)

lemma is_cube64_unit:
  assumes "is_cube64 model"
  shows "\<forall>z y x c. read3 model z y x = Some c \<longrightarrow> 0 \<le> c \<and> c \<le> 1"
  unfolding is_cube64_read[OF assms] by (auto split: if_splits)

lemma cube_mono:
  assumes "is_cube64 model"
  shows "\<exists>acc'. march_step model (real 64) c s uC vC center t acc = Some acc' \<and> acc \<le> acc'"
  using march_step_cubic[OF is_cube64_cubic[OF assms] is_cube64_unit[OF assms],
      where cosT = c and sinT = s and uC = uC and vC = vC and center = center and t = t
      and acc = acc]
  by auto

lemma cube_hit:
  assumes "is_cube64 model" and p: "sample_pos c s uC vC center t = (x, y, z)"
    and "19 \<le> \<lfloor>x\<rfloor>" "\<lfloor>x\<rfloor> + 1 < 44" "19 \<le> \<lfloor>y\<rfloor>" "\<lfloor>y\<rfloor> + 1 < 44" "19 \<le> \<lfloor>z\<rfloor>" "\<lfloor>z\<rfloor> + 1 < 44"
  shows "\<exists>acc'. march_step model (real 64) c s uC vC center t acc = Some acc' \<and> acc + 1 / 2 \<le> acc'"
proof -
  have lo: "19 \<le> x" "19 \<le> y" "19 \<le> z" using assms(3,5,7) by linarith+
  have hi: "x < 44" "y < 44" "z < 44" using assms(4,6,8) by linarith+
  have ib: "in_bounds (real 64) (x, y, z)"
    using lo hi by (simp add: in_bounds_def)
  have "interpolate model x y z = Some 1"
    by (rule interpolate_const) (use assms(3-8) in \<open>auto simp: is_cube64_read[OF assms(1)]\<close>)
  then have "march_step model (real 64) c s uC vC center t acc = Some (acc + 1 / 2)"
    using ib by (simp add: march_step_def Let_def p)
  then show ?thesis by simp
qed

lemma cube_miss:
  assumes "is_cube64 model" and p: "sample_pos c s uC vC center t = (x, y, z)"
    and "44 \<le> \<lfloor>x\<rfloor>"
  shows "march_step model (real 64) c s uC vC center t acc = Some acc"
proof (cases "in_bounds (real 64) (x, y, z)")
  case True
  note f = in_bounds_floor[OF True]
  have "interpolate model x y z = Some 0"
    by (rule interpolate_const) (use assms(3) f in \<open>auto simp: is_cube64_read[OF assms(1)]\<close>)
  then show ?thesis
    using True by (simp add: march_step_def Let_def p)
next
  case False
  then show ?thesis by (simp add: march_step_def Let_def p)
qed

lemma cube_pixel_lower:
  assumes "is_cube64 model"
    and cs: "cos (theta * (pi / 180)) = c" "sin (theta * (pi / 180)) = s"
    and p: "sample_pos c s (real u - real 64 / 2) (real v - real 64 / 2) (real 64 / 2)
        (- real 64 * 0.7 + real k / 2) = (x, y, z)"
    and k: "- real 64 * 0.7 + real k / 2 < real 64 * 0.7"
    and fl: "19 \<le> \<lfloor>x\<rfloor>" "\<lfloor>x\<rfloor> + 1 < 44" "19 \<le> \<lfloor>y\<rfloor>" "\<lfloor>y\<rfloor> + 1 < 44" "19 \<le> \<lfloor>z\<rfloor>" "\<lfloor>z\<rfloor> + 1 < 44"
  shows "\<exists>r. radonKernel model theta 64 u v = Some r \<and> 1 / 2 \<le> r"
proof -
  have "\<exists>r. for_t (march_step model (real 64) c s (real u - real 64 / 2) (real v - real 64 / 2)
      (real 64 / 2)) (real 64 * 0.7) (- real 64 * 0.7) 0 = Some r \<and> 0 + 1 / 2 \<le> r"
  proof (rule for_t_lower[where k = k])
    show "\<exists>acc'. march_step model (real 64) c s (real u - real 64 / 2) (real v - real 64 / 2)
        (real 64 / 2) t acc = Some acc' \<and> acc \<le> acc'" for t acc
      by (rule cube_mono[OF assms(1)])
    show "\<exists>acc'. march_step model (real 64) c s (real u - real 64 / 2) (real v - real 64 / 2)
        (real 64 / 2) (- real 64 * 0.7 + real k / 2) acc = Some acc' \<and> acc + 1 / 2 \<le> acc'" for acc
      by (rule cube_hit[OF assms(1) p fl])
    show "- real 64 * 0.7 + real k / 2 < real 64 * 0.7" by (rule k)
  qed
  then show ?thesis
    unfolding radonKernel_cos_sin[OF cs] by simp
qed

lemma cube_pixel_zero:
  assumes "is_cube64 model"
    and cs: "cos (theta * (pi / 180)) = c" "sin (theta * (pi / 180)) = s"
    and p: "\<And>t. \<exists>x y z. sample_pos c s (real u - real 64 / 2) (real v - real 64 / 2)
        (real 64 / 2) t = (x, y, z) \<and> 44 \<le> \<lfloor>x\<rfloor>"
  shows "radonKernel model theta 64 u v = Some 0"
proof -
  have step: "\<exists>acc'. march_step model (real 64) c s (real u - real 64 / 2) (real v - real 64 / 2)
      (real 64 / 2) t acc = Some acc' \<and> acc' = 0" if "acc = 0" for t and j :: nat and acc
  proof -
    from p[of t] obtain x y z where
      "sample_pos c s (real u - real 64 / 2) (real v - real 64 / 2) (real 64 / 2) t = (x, y, z)"
      "44 \<le> \<lfloor>x\<rfloor>"
      by blast
    from cube_miss[OF assms(1) this] that show ?thesis by simp
  qed
  from for_t_rule[where I = "\<lambda>j acc. acc = 0" and k = 0 and acc = 0, OF step]
  show ?thesis
    unfolding radonKernel_cos_sin[OF cs] by simp
qed

lemma angle_0: "cos (0 * (pi / 180)) = 1" "sin (0 * (pi / 180)) = 0"
  by simp_all

lemma angle_90: "cos (90 * (pi / 180)) = 0" "sin (90 * (pi / 180)) = 1"
  by simp_all

lemma angle_180: "cos (180 * (pi / 180)) = - 1" "sin (180 * (pi / 180)) = 0"
  by simp_all

lemma angle_270: "cos (270 * (pi / 180)) = 0" "sin (270 * (pi / 180)) = - 1"
proof -
  have "270 * (pi / 180) = 3 / 2 * pi" by simp
  then show "cos (270 * (pi / 180)) = 0" "sin (270 * (pi / 180)) = - 1"
    by (simp_all only: cos_3over2_pi sin_3over2_pi)
qed

lemma cube_raw_0:
  assumes "is_cube64 model"
  shows "\<exists>r. radonKernel model 0 64 19 19 = Some r \<and> 1 / 2 \<le> r"
  by (rule cube_pixel_lower[OF assms angle_0, where k = 64 and x = 19 and y = 19 and z = "96 / 5"])
     (simp_all add: sample_pos_def)

lemma cube_raw_90:
  assumes "is_cube64 model"
  shows "\<exists>r. radonKernel model 90 64 19 19 = Some r \<and> 1 / 2 \<le> r"
  by (rule cube_pixel_lower[OF assms angle_90, where k = 80 and x = "184 / 5" and y = 19 and z = 19])
     (simp_all add: sample_pos_def)

lemma cube_raw_180:
  assumes "is_cube64 model"
  shows "\<exists>r. radonKernel model 180 64 22 19 = Some r \<and> 1 / 2 \<le> r"
  by (rule cube_pixel_lower[OF assms angle_180, where k = 80 and x = 42 and y = 19 and z = "184 / 5"])
     (simp_all add: sample_pos_def)

lemma cube_raw_270:
  assumes "is_cube64 model"
  shows "\<exists>r. radonKernel model 270 64 22 19 = Some r \<and> 1 / 2 \<le> r"
  by (rule cube_pixel_lower[OF assms angle_270, where k = 80 and x = "136 / 5" and y = 19 and z = 42])
     (simp_all add: sample_pos_def)

lemma cube_raw_180_zero:
  assumes "is_cube64 model"
  shows "radonKernel model 180 64 19 19 = Some 0"
  by (rule cube_pixel_zero[OF assms angle_180]) (simp add: sample_pos_def)
lemma pixels_raw_projections:
  "pixels (raw_projections n m vol is) = map Fin (raw_values n m vol is)"
  by (simp add: pixels_def raw_projections_def raw_values_def map_concat comp_def)

lemma raw_values_member:
  assumes "i \<in> set is" "u < n" "v < n"
  shows "the (radonKernel vol (projection_angle m i) n u v) \<in> set (raw_values n m vol is)"
  using assms unfolding raw_values_def raw_projection_def by force

lemma raw_values_elim:
  assumes "r \<in> set (raw_values n m vol is)"
  shows "\<exists>i\<in>set is. \<exists>u<n. \<exists>v<n. r = the (radonKernel vol (projection_angle m i) n u v)"
  using assms unfolding raw_values_def raw_projection_def by (auto, blast)

lemma normalized_projection_nth:
  assumes ps: "ps = map (\<lambda>proj. proj\<lparr>data := map (map f) (data proj)\<rparr>)
      (raw_projections n m vol [0..<m])"
    and "i < m"
  shows "angle (ps ! i) = projection_angle m i"
    and "data (ps ! i) =
      map (\<lambda>v. map (\<lambda>u. f (Fin (the (radonKernel vol (projection_angle m i) n u v)))) [0..<n])
        [0..<n]"
  using assms(2) unfolding ps raw_projections_def raw_projection_def by (simp_all add: comp_def)

lemma normalized_projection_shape:
  assumes ps: "ps = map (\<lambda>proj. proj\<lparr>data := map (map f) (data proj)\<rparr>)
      (raw_projections n m vol [0..<m])"
    and "i < m"
  shows "length (data (ps ! i)) = n"
    and "\<forall>row\<in>set (data (ps ! i)). length row = n
        \<and> (\<forall>q\<in>set row. \<exists>u<n. \<exists>v<n.
              q = f (Fin (the (radonKernel vol (projection_angle m i) n u v))))"
    and "\<forall>u<n. \<forall>v<n. data (ps ! i) ! v ! u
        = f (Fin (the (radonKernel vol (projection_angle m i) n u v)))"
  unfolding normalized_projection_nth(2)[OF assms] by (auto, blast)

lemma cube_kernel_range:
  assumes "is_cube64 model"
  shows "\<exists>r. radonKernel model theta 64 u v = Some r \<and> 0 \<le> r \<and> r \<le> 901 / 10"
proof -
  from radonKernel_bounds[OF is_cube64_cubic[OF assms] is_cube64_unit[OF assms],
      where theta = theta and u = u and v = v]
  obtain r where r: "radonKernel model theta 64 u v = Some r" "0 \<le> r"
    "r \<le> 0.5 * real (march_steps (real 64 * 0.7) (- real 64 * 0.7))"
    by auto
  have "1.4 * real 64 + 0.5 = (901 / 10 :: real)" by simp
  then have "r \<le> 901 / 10" using r(3) march_steps_kernel[of 64] by linarith
  then show ?thesis using r by blast
qed

lemma round_positive:
  fixes r mx :: real
  assumes "1 / 2 \<le> r" "0 < mx" "mx \<le> 901 / 10"
  shows "1 \<le> round (r / mx * 255)"
proof -
  have "mx \<le> 255 * r" using assms by linarith
  then have "1 \<le> 255 * r / mx" using assms(2) by (simp add: pos_le_divide_eq)
  then have "1 \<le> r / mx * 255" by (simp add: mult.commute)
  then have "round (1 :: real) \<le> round (r / mx * 255)" by (rule round_mono)
  then show ?thesis by simp
qed


lemma cube_64_is_cube64: "\<exists>model. createTestModel_cube 64 = Some model \<and> is_cube64 model"
  using cube_64_cells unfolding is_cube64_def by blast

lemma cube_pipeline_facts:
  assumes "is_cube64 model"
  shows "\<exists>ps mx. generateProjections 64 4 model = Some ps \<and> length ps = 4
      \<and> 0 < mx \<and> mx \<le> 901 / 10
      \<and> (\<forall>i<4. \<forall>u<64. \<forall>v<64.
            0 \<le> the (radonKernel model (projection_angle 4 i) 64 u v)
            \<and> the (radonKernel model (projection_angle 4 i) 64 u v) \<le> mx)
      \<and> (\<forall>i<4. angle (ps ! i) = projection_angle 4 i
            \<and> length (data (ps ! i)) = 64
            \<and> (\<forall>row\<in>set (data (ps ! i)). length row = 64
                 \<and> (\<forall>q\<in>set row. \<exists>u<64. \<exists>v<64. q = Fin (of_int (round
                       (the (radonKernel model (projection_angle 4 i) 64 u v) / mx * 255)))))
            \<and> (\<forall>u<64. \<forall>v<64. data (ps ! i) ! v ! u = Fin (of_int (round
                       (the (radonKernel model (projection_angle 4 i) 64 u v) / mx * 255)))))"
proof -
  define X where "X = raw_projections 64 4 model [0..<4]"
  define rs where "rs = raw_values 64 4 model [0..<4]"
  have px: "pixels X = map Fin rs"
    unfolding X_def rs_def by (rule pixels_raw_projections)
  have mem: "the (radonKernel model (projection_angle 4 i) 64 u v) \<in> set rs"
    if "i < 4" "u < 64" "v < 64" for i u v
    unfolding rs_def by (rule raw_values_member) (use that in simp_all)
  have rng: "0 \<le> r \<and> r \<le> 901 / 10" if "r \<in> set rs" for r
  proof -
    from raw_values_elim[OF that[unfolded rs_def]] obtain i u v where
      r: "r = the (radonKernel model (projection_angle 4 i) 64 u v)" by blast
    from cube_kernel_range[OF assms, of "projection_angle 4 i" u v] show ?thesis
      unfolding r by auto
  qed
  have "the (radonKernel model (projection_angle 4 2) 64 19 19) \<in> set rs"
    by (rule mem) simp_all
  moreover have "projection_angle 4 2 = (180 :: real)" by (rule projection_angle_4)
  ultimately have zero: "0 \<in> set rs"
    using cube_raw_180_zero[OF assms] by simp
  have "the (radonKernel model (projection_angle 4 0) 64 19 19) \<in> set rs"
    by (rule mem) simp_all
  moreover have "projection_angle 4 0 = (0 :: real)" by (rule projection_angle_4)
  ultimately have half: "\<exists>r\<in>set rs. 1 / 2 \<le> r"
    using cube_raw_0[OF assms] by auto
  have ne: "rs \<noteq> []" using zero by auto
  define mx where "mx = Max (set rs)"
  have mn: "Min (set rs) = 0"
    using zero rng by (intro Min_eqI) auto
  have mx_ge: "r \<le> mx" if "r \<in> set rs" for r
    unfolding mx_def using that by simp
  have mx_in: "mx \<in> set rs" unfolding mx_def using ne by (intro Max_in) auto
  have mx_pos: "0 < mx" using half mx_ge by force
  have mx_le: "mx \<le> 901 / 10" using rng[OF mx_in] by simp
  have norm: "normalizeProjections X =
      map (\<lambda>proj. proj\<lparr>data := map (map (rescale (Fin 0) (Fin mx))) (data proj)\<rparr>)
        (raw_projections 64 4 model [0..<4])"
    using normalize_Fin[OF px ne] mx_pos unfolding mn mx_def[symmetric] X_def by simp
  have gen: "generateProjections 64 4 model = Some (normalizeProjections X)"
    unfolding X_def by (rule generateProjections_cubic[OF is_cube64_cubic[OF assms]])
  have len: "length (normalizeProjections X) = 4"
    unfolding norm by (simp add: raw_projections_def)
  have f: "rescale (Fin 0) (Fin mx) (Fin r) = Fin (of_int (round (r / mx * 255)))" for r
    using rescale_Fin[of mx 0 r] mx_pos by simp
  have bounds: "\<forall>i<4. \<forall>u<64. \<forall>v<64.
            0 \<le> the (radonKernel model (projection_angle 4 i) 64 u v)
            \<and> the (radonKernel model (projection_angle 4 i) 64 u v) \<le> mx"
    using mem rng mx_ge by blast
  have shape: "angle (normalizeProjections X ! i) = projection_angle 4 i
            \<and> length (data (normalizeProjections X ! i)) = 64
            \<and> (\<forall>row\<in>set (data (normalizeProjections X ! i)). length row = 64
                 \<and> (\<forall>q\<in>set row. \<exists>u<64. \<exists>v<64. q = Fin (of_int (round
                       (the (radonKernel model (projection_angle 4 i) 64 u v) / mx * 255)))))
            \<and> (\<forall>u<64. \<forall>v<64. data (normalizeProjections X ! i) ! v ! u = Fin (of_int (round
                       (the (radonKernel model (projection_angle 4 i) 64 u v) / mx * 255))))"
    if "i < 4" for i
    using normalized_projection_nth(1)[OF norm that]
      normalized_projection_shape[OF norm that]
    unfolding f by blast
  show ?thesis
    using gen len mx_pos mx_le bounds shape by blast
qed

lemma list4_nth:
  assumes "length ps = 4"
  shows "ps = [ps ! 0, ps ! 1, ps ! 2, ps ! 3]"
proof (rule nth_equalityI)
  show "length ps = length [ps ! 0, ps ! 1, ps ! 2, ps ! 3]" using assms by simp
  fix i assume "i < length ps"
  then have "i = 0 \<or> i = 1 \<or> i = 2 \<or> i = 3" using assms by auto
  then show "ps ! i = [ps ! 0, ps ! 1, ps ! 2, ps ! 3] ! i" by auto
qed

lemma round_pixel_range:
  fixes r mx :: real
  assumes "0 \<le> r" "r \<le> mx" "0 < mx"
  shows "0 \<le> round (r / mx * 255) \<and> round (r / mx * 255) \<le> 255"
  using round_unit_range[of 0 r mx] assms by simp

lemma cube_positive_pixels:
  assumes "is_cube64 model"
  shows "1 / 2 \<le> the (radonKernel model (projection_angle 4 0) 64 19 19)"
    and "1 / 2 \<le> the (radonKernel model (projection_angle 4 1) 64 19 19)"
    and "1 / 2 \<le> the (radonKernel model (projection_angle 4 2) 64 22 19)"
    and "1 / 2 \<le> the (radonKernel model (projection_angle 4 3) 64 22 19)"
    and "the (radonKernel model (projection_angle 4 2) 64 19 19) = 0"
proof -
  note a = projection_angle_4
  show "1 / 2 \<le> the (radonKernel model (projection_angle 4 0) 64 19 19)"
    unfolding a using cube_raw_0[OF assms] by auto
  show "1 / 2 \<le> the (radonKernel model (projection_angle 4 1) 64 19 19)"
    unfolding a using cube_raw_90[OF assms] by auto
  show "1 / 2 \<le> the (radonKernel model (projection_angle 4 2) 64 22 19)"
    unfolding a using cube_raw_180[OF assms] by auto
  show "1 / 2 \<le> the (radonKernel model (projection_angle 4 3) 64 22 19)"
    unfolding a using cube_raw_270[OF assms] by auto
  show "the (radonKernel model (projection_angle 4 2) 64 19 19) = 0"
    unfolding a using cube_raw_180_zero[OF assms] by simp
qed

lemma cube_pipeline_result:
  assumes "is_cube64 model"
  shows "\<exists>ps. generateProjections 64 4 model = Some ps \<and> length ps = 4
      \<and> map angle ps = [0, 90, 180, 270]
      \<and> (\<forall>p\<in>set ps. length (data p) = 64
            \<and> (\<forall>row\<in>set (data p). length row = 64
                 \<and> (\<forall>q\<in>set row. \<exists>k. q = Fin (of_int k) \<and> 0 \<le> k \<and> k \<le> 255))
            \<and> (\<exists>row\<in>set (data p). \<exists>q\<in>set row. js_lt (Fin 0) q))
      \<and> data (ps ! 2) ! 19 ! 19 = Fin 0
      \<and> js_lt (Fin 0) (data (ps ! 0) ! 19 ! 19)"
proof -
  define R where "R i u v = the (radonKernel model (projection_angle 4 i) 64 u v)"
    for i u v :: nat
  from cube_pipeline_facts[OF assms, folded R_def] obtain ps mx where
    gen: "generateProjections 64 4 model = Some ps" and len: "length ps = 4"
    and mx: "0 < mx" "mx \<le> 901 / 10"
    and raw0: "\<forall>i<4. \<forall>u<64. \<forall>v<64. 0 \<le> R i u v \<and> R i u v \<le> mx"
    and sh: "\<forall>i<4. angle (ps ! i) = projection_angle 4 i
            \<and> length (data (ps ! i)) = 64
            \<and> (\<forall>row\<in>set (data (ps ! i)). length row = 64
                 \<and> (\<forall>q\<in>set row. \<exists>u<64. \<exists>v<64. q = Fin (of_int (round
                       (R i u v / mx * 255)))))
            \<and> (\<forall>u<64. \<forall>v<64. data (ps ! i) ! v ! u = Fin (of_int (round
                       (R i u v / mx * 255))))"
    by (elim exE conjE)
  note raw = raw0[rule_format]
  note ang = sh[rule_format, THEN conjunct1]
  note rows = sh[rule_format, THEN conjunct2, THEN conjunct1]
  note cells0 = sh[rule_format, THEN conjunct2, THEN conjunct2, THEN conjunct1]
  note nth = sh[rule_format, THEN conjunct2, THEN conjunct2, THEN conjunct2, rule_format]
  have cells: "length row = 64
        \<and> (\<forall>q\<in>set row. \<exists>u<64. \<exists>v<64. q = Fin (of_int (round (R i u v / mx * 255))))"
    if "i < 4" "row \<in> set (data (ps ! i))" for i row
    by (rule bspec[OF cells0[OF that(1)] that(2)])
  note pos = cube_positive_pixels[OF assms, folded R_def]
  have angles: "map angle ps = [0, 90, 180, 270]"
    by (subst list4_nth[OF len]) (simp add: ang projection_angle_4 projection_angle_4_Suc)
  have bright: "js_lt (Fin 0) (data (ps ! i) ! 19 ! u)" if "i < 4" "u < 64" "1 / 2 \<le> R i u 19"
    for i u
  proof -
    have "1 \<le> round (R i u 19 / mx * 255)"
      by (rule round_positive[OF that(3) mx])
    then show ?thesis using nth[OF that(1,2), of 19] by simp
  qed
  have inrow: "data (ps ! i) ! 19 \<in> set (data (ps ! i)) \<and> data (ps ! i) ! 19 ! u \<in> set (data (ps ! i) ! 19)"
    if "i < 4" "u < 64" for i u
  proof -
    have r: "data (ps ! i) ! 19 \<in> set (data (ps ! i))"
      using rows[OF that(1)] by (intro nth_mem) simp
    then have "length (data (ps ! i) ! 19) = 64" using cells[OF that(1)] by blast
    then have "data (ps ! i) ! 19 ! u \<in> set (data (ps ! i) ! 19)"
      using that(2) by (intro nth_mem) simp
    then show ?thesis using r by simp
  qed
  have some: "\<exists>row\<in>set (data (ps ! i)). \<exists>q\<in>set row. js_lt (Fin 0) q" if "i < 4" for i
  proof -
    have "i = 0 \<or> i = 1 \<or> i = 2 \<or> i = 3" using that by auto
    then have "\<exists>u<64. 1 / 2 \<le> R i u 19"
    proof (elim disjE)
      assume "i = 0" then show ?thesis using pos(1) by (intro exI[of _ 19]) simp
    next
      assume "i = 1" then show ?thesis using pos(2) by (intro exI[of _ 19]) simp
    next
      assume "i = 2" then show ?thesis using pos(3) by (intro exI[of _ 22]) simp
    next
      assume "i = 3" then show ?thesis using pos(4) by (intro exI[of _ 22]) simp
    qed
    then obtain u where u: "u < 64" "1 / 2 \<le> R i u 19" by blast
    show ?thesis using bright[OF that u] inrow[OF that u(1)] by blast
  qed
  have range: "length row = 64 \<and> (\<forall>q\<in>set row. \<exists>k. q = Fin (of_int k) \<and> 0 \<le> k \<and> k \<le> 255)"
    if "i < 4" "row \<in> set (data (ps ! i))" for i row
  proof -
    have "\<exists>k. q = Fin (of_int k) \<and> 0 \<le> k \<and> k \<le> 255" if q: "q \<in> set row" for q
    proof -
      from cells[OF \<open>i < 4\<close> \<open>row \<in> set (data (ps ! i))\<close>] q obtain u v where
        uv: "u < 64" "v < 64" "q = Fin (of_int (round (R i u v / mx * 255)))" by blast
      from raw[OF \<open>i < 4\<close> uv(1,2)] have "0 \<le> R i u v" "R i u v \<le> mx" by simp_all
      from round_pixel_range[OF this mx(1)] show ?thesis using uv(3) by blast
    qed
    then show ?thesis using cells[OF that] by blast
  qed
  have each: "length (data p) = 64
            \<and> (\<forall>row\<in>set (data p). length row = 64
                 \<and> (\<forall>q\<in>set row. \<exists>k. q = Fin (of_int k) \<and> 0 \<le> k \<and> k \<le> 255))
            \<and> (\<exists>row\<in>set (data p). \<exists>q\<in>set row. js_lt (Fin 0) q)" if "p \<in> set ps" for p
  proof -
    from that obtain i where i: "i < 4" "p = ps ! i"
      using len by (auto simp: in_set_conv_nth)
    show ?thesis unfolding i(2) using rows[OF i(1)] range[OF i(1)] some[OF i(1)] by blast
  qed
  have dark: "data (ps ! 2) ! 19 ! 19 = Fin 0"
    using nth[of 2 19 19] pos(5) by simp
  have light: "js_lt (Fin 0) (data (ps ! 0) ! 19 ! 19)"
    using bright[of 0 19] pos(1) by simp
  have all: "\<forall>p\<in>set ps. length (data p) = 64
            \<and> (\<forall>row\<in>set (data p). length row = 64
                 \<and> (\<forall>q\<in>set row. \<exists>k. q = Fin (of_int k) \<and> 0 \<le> k \<and> k \<le> 255))
            \<and> (\<exists>row\<in>set (data p). \<exists>q\<in>set row. js_lt (Fin 0) q)"
    using each by (intro ballI)
  show ?thesis
    by (intro exI[of _ ps] conjI) (rule gen len angles all dark light)+
qed

text \<open>
  C1 (as stated). In the scenario cube, \<open>N = 64\<close>, \<open>M = 4\<close> the projections at
  \<open>0\<close> and \<open>180\<close> degrees are not identical. The cube fills the cells \<open>19..43\<close>, which
  are not centred on the rotation centre \<open>32\<close>: at \<open>0\<close> degrees pixel \<open>u = 19, v = 19\<close>
  looks along \<open>x = 19\<close>, through the cube, and is positive after normalization; at
  \<open>180\<close> degrees the same pixel looks along \<open>x = 45\<close>, outside the cube, and is \<open>0\<close>.
\<close>

theorem cube_symmetry_counterexample:
  "\<exists>model ps. createTestModel_cube 64 = Some model
      \<and> generateProjections 64 4 model = Some ps
      \<and> angle (ps ! 0) = 0 \<and> angle (ps ! 2) = 180
      \<and> data (ps ! 2) ! 19 ! 19 = Fin 0
      \<and> js_lt (Fin 0) (data (ps ! 0) ! 19 ! 19)
      \<and> data (ps ! 0) \<noteq> data (ps ! 2)"
proof -
  from cube_64_is_cube64 obtain model where
    m: "createTestModel_cube 64 = Some model" "is_cube64 model" by (elim exE conjE)
  from cube_pipeline_result[OF m(2)] obtain ps where
    ps: "generateProjections 64 4 model = Some ps" "length ps = 4"
      "map angle ps = [0, 90, 180, 270]"
    and dl: "data (ps ! 2) ! 19 ! 19 = Fin 0" "js_lt (Fin 0) (data (ps ! 0) ! 19 ! 19)"
    by (elim exE conjE)
  have "map angle ps ! 0 = 0" "map angle ps ! 2 = 180" unfolding ps(3) by simp_all
  then have a: "angle (ps ! 0) = 0" "angle (ps ! 2) = 180" using ps(2) by simp_all
  have "data (ps ! 0) ! 19 ! 19 \<noteq> data (ps ! 2) ! 19 ! 19"
    using dl by auto
  then have ne: "data (ps ! 0) \<noteq> data (ps ! 2)" by auto
  show ?thesis
    by (intro exI[of _ model] exI[of _ ps] conjI) (rule m(1) ps(1) a dl ne)+
qed

text \<open>
  C1 (amended). In the scenario cube, \<open>N = 64\<close>, \<open>M = 4\<close> the pipeline produces
  exactly four projections, at the angles \<open>0, 90, 180, 270\<close>; each is a grid of
  \<open>64\<close> rows of \<open>64\<close> values, every value an integer in \<open>[0, 255]\<close>, with at least one
  value greater than \<open>0\<close>.
\<close>

theorem cube_pipeline:
  "\<exists>model ps. createTestModel_cube 64 = Some model
      \<and> generateProjections 64 4 model = Some ps \<and> length ps = 4
      \<and> map angle ps = [0, 90, 180, 270]
      \<and> (\<forall>p\<in>set ps. length (data p) = 64
            \<and> (\<forall>row\<in>set (data p). length row = 64
                 \<and> (\<forall>q\<in>set row. \<exists>k. q = Fin (of_int k) \<and> 0 \<le> k \<and> k \<le> 255))
            \<and> (\<exists>row\<in>set (data p). \<exists>q\<in>set row. js_lt (Fin 0) q))"
proof -
  from cube_64_is_cube64 obtain model where
    m: "createTestModel_cube 64 = Some model" "is_cube64 model" by (elim exE conjE)
  from cube_pipeline_result[OF m(2)] obtain ps where
    ps: "generateProjections 64 4 model = Some ps" "length ps = 4"
      "map angle ps = [0, 90, 180, 270]"
      "\<forall>p\<in>set ps. length (data p) = 64
            \<and> (\<forall>row\<in>set (data p). length row = 64
                 \<and> (\<forall>q\<in>set row. \<exists>k. q = Fin (of_int k) \<and> 0 \<le> k \<and> k \<le> 255))
            \<and> (\<exists>row\<in>set (data p). \<exists>q\<in>set row. js_lt (Fin 0) q)"
    by (elim exE conjE)
  show ?thesis
    by (intro exI[of _ model] exI[of _ ps] conjI) (rule m(1) ps)+
qed

theorem cube_pipeline_witness:
  "\<exists>model ps. createTestModel_cube 64 = Some model
      \<and> generateProjections 64 4 model = Some ps \<and> length ps = 4
      \<and> map angle ps = [0, 90, 180, 270] \<and> length (data (ps ! 1)) = 64"
proof -
  from cube_pipeline obtain model ps where
    f: "createTestModel_cube 64 = Some model" "generateProjections 64 4 model = Some ps"
      "length ps = 4" "map angle ps = [0, 90, 180, 270]"
    and all: "\<forall>p\<in>set ps. length (data p) = 64
            \<and> (\<forall>row\<in>set (data p). length row = 64
                 \<and> (\<forall>q\<in>set row. \<exists>k. q = Fin (of_int k) \<and> 0 \<le> k \<and> k \<le> 255))
            \<and> (\<exists>row\<in>set (data p). \<exists>q\<in>set row. js_lt (Fin 0) q)"
    by (elim exE conjE)
  have "ps ! 1 \<in> set ps" using f(3) by (intro nth_mem) simp
  from bspec[OF all this] have l: "length (data (ps ! 1)) = 64" by (elim conjE)
  show ?thesis
    by (intro exI[of _ model] exI[of _ ps] conjI) (rule f l)+
qed


end
